theory Spec2Isabelle
  imports Complex_Main
begin

section \<open>JavaScript numbers\<close>

text \<open>
  A JavaScript number is a finite value, one of the two infinities, or NaN.
  Finite values are exact reals: the arithmetic below follows the special-value
  rules of IEEE 754 (what \<open>isFinite\<close>, \<open>isNaN\<close> and the comparisons of the
  source observe) and is exact on finite operands. Rounding to 53 bits, overflow
  of a finite result and the sign of zero are not represented; zero is \<open>+0\<close>.
\<close>

datatype jsnum = Finite real | PosInfinity | NegInfinity | NaN

fun isFinite :: "jsnum \<Rightarrow> bool" where
  "isFinite (Finite _) = True"
| "isFinite _ = False"

fun isNaN :: "jsnum \<Rightarrow> bool" where
  "isNaN NaN = True"
| "isNaN _ = False"

text \<open>\<open>a < b\<close>, \<open>a <= b\<close>, \<open>a > b\<close>, \<open>a >= b\<close>, \<open>a === b\<close>: false whenever an operand is NaN.\<close>

fun js_lt :: "jsnum \<Rightarrow> jsnum \<Rightarrow> bool" where
  "js_lt (Finite a) (Finite b) = (a < b)"
| "js_lt (Finite _) PosInfinity = True"
| "js_lt NegInfinity (Finite _) = True"
| "js_lt NegInfinity PosInfinity = True"
| "js_lt _ _ = False"

fun js_le :: "jsnum \<Rightarrow> jsnum \<Rightarrow> bool" where
  "js_le (Finite a) (Finite b) = (a \<le> b)"
| "js_le NaN _ = False"
| "js_le _ NaN = False"
| "js_le NegInfinity _ = True"
| "js_le _ PosInfinity = True"
| "js_le _ _ = False"

definition js_gt :: "jsnum \<Rightarrow> jsnum \<Rightarrow> bool" where
  "js_gt a b = js_lt b a"

definition js_ge :: "jsnum \<Rightarrow> jsnum \<Rightarrow> bool" where
  "js_ge a b = js_le b a"

definition js_eq :: "jsnum \<Rightarrow> jsnum \<Rightarrow> bool" where
  "js_eq a b = (a = b \<and> a \<noteq> NaN)"

text \<open>Truthiness of a number: every number but \<open>0\<close> and \<open>NaN\<close>.\<close>

definition truthy :: "jsnum \<Rightarrow> bool" where
  "truthy a = (a \<noteq> Finite 0 \<and> a \<noteq> NaN)"

fun js_sign :: "jsnum \<Rightarrow> real" where
  "js_sign (Finite a) = sgn a"
| "js_sign PosInfinity = 1"
| "js_sign NegInfinity = - 1"
| "js_sign NaN = 0"

definition signed_inf :: "real \<Rightarrow> jsnum" where
  "signed_inf s = (if 0 < s then PosInfinity else if s < 0 then NegInfinity else NaN)"

fun js_neg :: "jsnum \<Rightarrow> jsnum" where
  "js_neg (Finite a) = Finite (- a)"
| "js_neg PosInfinity = NegInfinity"
| "js_neg NegInfinity = PosInfinity"
| "js_neg NaN = NaN"

fun js_add :: "jsnum \<Rightarrow> jsnum \<Rightarrow> jsnum" where
  "js_add (Finite a) (Finite b) = Finite (a + b)"
| "js_add NaN _ = NaN"
| "js_add _ NaN = NaN"
| "js_add PosInfinity NegInfinity = NaN"
| "js_add NegInfinity PosInfinity = NaN"
| "js_add PosInfinity _ = PosInfinity"
| "js_add _ PosInfinity = PosInfinity"
| "js_add NegInfinity _ = NegInfinity"
| "js_add _ NegInfinity = NegInfinity"

definition js_sub :: "jsnum \<Rightarrow> jsnum \<Rightarrow> jsnum" where
  "js_sub a b = js_add a (js_neg b)"

fun js_mul :: "jsnum \<Rightarrow> jsnum \<Rightarrow> jsnum" where
  "js_mul (Finite a) (Finite b) = Finite (a * b)"
| "js_mul NaN _ = NaN"
| "js_mul _ NaN = NaN"
| "js_mul a b = signed_inf (js_sign a * js_sign b)"

fun js_div :: "jsnum \<Rightarrow> jsnum \<Rightarrow> jsnum" where
  "js_div (Finite a) (Finite b) = (if b = 0 then signed_inf (sgn a) else Finite (a / b))"
| "js_div NaN _ = NaN"
| "js_div _ NaN = NaN"
| "js_div (Finite _) _ = Finite 0"
| "js_div a (Finite b) = signed_inf (js_sign a * (if b < 0 then - 1 else 1))"
| "js_div _ _ = NaN"

fun Math_abs :: "jsnum \<Rightarrow> jsnum" where
  "Math_abs (Finite a) = Finite \<bar>a\<bar>"
| "Math_abs NaN = NaN"
| "Math_abs _ = PosInfinity"

fun Math_floor :: "jsnum \<Rightarrow> jsnum" where
  "Math_floor (Finite a) = Finite (of_int \<lfloor>a\<rfloor>)"
| "Math_floor a = a"

text \<open>\<open>Math.round\<close> rounds to the nearest integer, a half towards \<open>+\<infinity>\<close>.\<close>

fun Math_round :: "jsnum \<Rightarrow> jsnum" where
  "Math_round (Finite a) = Finite (of_int \<lfloor>a + 1 / 2\<rfloor>)"
| "Math_round a = a"

definition Math_max :: "jsnum \<Rightarrow> jsnum \<Rightarrow> jsnum" where
  "Math_max a b = (if isNaN a \<or> isNaN b then NaN else if js_lt a b then b else a)"

definition Math_min :: "jsnum \<Rightarrow> jsnum \<Rightarrow> jsnum" where
  "Math_min a b = (if isNaN a \<or> isNaN b then NaN else if js_lt b a then b else a)"

text \<open>
  \<open>Math.pow(base, exponent)\<close>. The program only raises to integral exponents (a
  round count, an index, a floored quotient); a fractional exponent of a positive
  base is \<open>powr\<close>.
\<close>

definition pow_int :: "real \<Rightarrow> int \<Rightarrow> jsnum" where
  "pow_int b e =
     (if 0 \<le> e then Finite (b ^ nat e)
      else if b = 0 then PosInfinity
      else Finite (1 / b ^ nat (- e)))"

fun Math_pow :: "jsnum \<Rightarrow> jsnum \<Rightarrow> jsnum" where
  "Math_pow _ NaN = NaN"
| "Math_pow b (Finite e) =
     (if e = 0 then Finite 1
      else case b of
        NaN \<Rightarrow> NaN
      | PosInfinity \<Rightarrow> (if 0 < e then PosInfinity else Finite 0)
      | NegInfinity \<Rightarrow>
          (if e < 0 then Finite 0
           else if e = of_int \<lfloor>e\<rfloor> \<and> odd \<lfloor>e\<rfloor> then NegInfinity else PosInfinity)
      | Finite x \<Rightarrow>
          (if e = of_int \<lfloor>e\<rfloor> then pow_int x \<lfloor>e\<rfloor>
           else if x < 0 then NaN
           else if x = 0 then (if 0 < e then Finite 0 else PosInfinity)
           else Finite (x powr e)))"
| "Math_pow b PosInfinity =
     (case Math_abs b of
        Finite a \<Rightarrow> (if 1 < a then PosInfinity else if a = 1 then NaN else Finite 0)
      | NaN \<Rightarrow> NaN
      | _ \<Rightarrow> PosInfinity)"
| "Math_pow b NegInfinity =
     (case Math_abs b of
        Finite a \<Rightarrow> (if 1 < a then Finite 0 else if a = 1 then NaN else PosInfinity)
      | NaN \<Rightarrow> NaN
      | _ \<Rightarrow> Finite 0)"

section \<open>JavaScript strings and the conversions between strings and numbers\<close>

text \<open>
  A value handed to the odds functions is a number or a string. \<open>ToString\<close> of a
  number (\<open>Number::toString\<close>, the shortest decimal text that reads back as the
  same double) is a property of the double representation, so it is a parameter
  \<open>toStr\<close> of every function that prints a number or parses one.
\<close>

datatype jsval = JNum jsnum | JStr string

fun ToString :: "(jsnum \<Rightarrow> string) \<Rightarrow> jsval \<Rightarrow> string" where
  "ToString toStr (JStr s) = s"
| "ToString toStr (JNum n) = toStr n"

text \<open>White space that \<open>parseFloat\<close>, \<open>parseInt\<close> and \<open>Number\<close> skip (the ASCII part of it).\<close>

definition isWhiteSpace :: "char \<Rightarrow> bool" where
  "isWhiteSpace c = (c = CHR 0x09 \<or> c = CHR 0x0A \<or> c = CHR 0x0B \<or> c = CHR 0x0C
     \<or> c = CHR 0x0D \<or> c = CHR 0x20)"

definition trimStart :: "string \<Rightarrow> string" where
  "trimStart s = dropWhile isWhiteSpace s"

definition trim :: "string \<Rightarrow> string" where
  "trim s = rev (dropWhile isWhiteSpace (rev (dropWhile isWhiteSpace s)))"

definition digitOf :: "nat \<Rightarrow> char \<Rightarrow> nat option" where
  "digitOf radix c =
     (let n = (of_char c :: nat);
          v = (if 48 \<le> n \<and> n \<le> 57 then Some (n - 48)
               else if 97 \<le> n \<and> n \<le> 122 then Some (n - 87)
               else if 65 \<le> n \<and> n \<le> 90 then Some (n - 55)
               else None)
      in case v of None \<Rightarrow> None | Some d \<Rightarrow> (if d < radix then Some d else None))"

definition isDigit :: "nat \<Rightarrow> char \<Rightarrow> bool" where
  "isDigit radix c = (digitOf radix c \<noteq> None)"

definition digitsValue :: "nat \<Rightarrow> string \<Rightarrow> nat" where
  "digitsValue radix ds = foldl (\<lambda>acc c. acc * radix + the (digitOf radix c)) 0 ds"

text \<open>An optional sign: the factor and the rest of the text.\<close>

fun scanSign :: "string \<Rightarrow> real \<times> string" where
  "scanSign [] = (1, [])"
| "scanSign (c # cs) =
     (if c = CHR ''-'' then (- 1, cs) else if c = CHR ''+'' then (1, cs) else (1, c # cs))"

text \<open>An exponent part \<open>e[+-]digits\<close>, if the text starts with a complete one.\<close>

definition scanExponent :: "string \<Rightarrow> int \<times> string" where
  "scanExponent s =
     (case s of
        [] \<Rightarrow> (0, s)
      | c # t \<Rightarrow>
          if c = CHR ''e'' \<or> c = CHR ''E'' then
            (let (sg, u) = scanSign t; ds = takeWhile (isDigit 10) u
             in if ds = [] then (0, s)
                else ((if sg < 0 then - int (digitsValue 10 ds) else int (digitsValue 10 ds)),
                      dropWhile (isDigit 10) u))
          else (0, s))"

definition scale10 :: "real \<Rightarrow> int \<Rightarrow> real" where
  "scale10 m e = (if 0 \<le> e then m * 10 ^ nat e else m / 10 ^ nat (- e))"

text \<open>
  The longest prefix that is an unsigned decimal literal (\<open>Infinity\<close>, digits with
  an optional fraction and exponent, or a fraction alone): its value and the rest.
\<close>

definition scanUnsigned :: "string \<Rightarrow> (jsnum \<times> string) option" where
  "scanUnsigned s =
     (if take 8 s = ''Infinity'' then Some (PosInfinity, drop 8 s)
      else
        let ip = takeWhile (isDigit 10) s;
            r1 = dropWhile (isDigit 10) s;
            dot = (r1 \<noteq> [] \<and> hd r1 = CHR ''.'');
            fp = (if dot then takeWhile (isDigit 10) (tl r1) else []);
            r2 = (if dot then dropWhile (isDigit 10) (tl r1) else r1)
        in if ip = [] \<and> fp = [] then None
           else
             let m = real (digitsValue 10 ip) + real (digitsValue 10 fp) / 10 ^ length fp;
                 (e, r3) = scanExponent r2
             in Some (Finite (scale10 m e), r3))"

definition parseFloat_string :: "string \<Rightarrow> jsnum" where
  "parseFloat_string s =
     (let (sg, u) = scanSign (trimStart s)
      in case scanUnsigned u of
           None \<Rightarrow> NaN
         | Some (n, _) \<Rightarrow> js_mul (Finite sg) n)"

definition parseFloat :: "(jsnum \<Rightarrow> string) \<Rightarrow> jsval \<Rightarrow> jsnum" where
  "parseFloat toStr v = parseFloat_string (ToString toStr v)"

text \<open>\<open>parseInt\<close> without a radix: base 16 after \<open>0x\<close>, base 10 otherwise.\<close>

definition parseInt_string :: "string \<Rightarrow> jsnum" where
  "parseInt_string s =
     (let (sg, u) = scanSign (trimStart s);
          hex = (take 2 u = ''0x'' \<or> take 2 u = ''0X'');
          radix = (if hex then 16 else 10);
          w = (if hex then drop 2 u else u);
          ds = takeWhile (isDigit radix) w
      in if ds = [] then NaN else Finite (sg * real (digitsValue radix ds)))"

definition parseInt :: "(jsnum \<Rightarrow> string) \<Rightarrow> jsval \<Rightarrow> jsnum" where
  "parseInt toStr v = parseInt_string (ToString toStr v)"

text \<open>
  \<open>Number(s)\<close> of a string: the whole trimmed text must be a numeric literal; the
  empty text is \<open>0\<close>.
\<close>

definition radixLiteral :: "nat \<Rightarrow> string \<Rightarrow> jsnum" where
  "radixLiteral radix ds =
     (if ds \<noteq> [] \<and> list_all (isDigit radix) ds then Finite (real (digitsValue radix ds))
      else NaN)"

definition Number_string :: "string \<Rightarrow> jsnum" where
  "Number_string s =
     (let t = trim s; p = take 2 t
      in if t = [] then Finite 0
         else if p = ''0x'' \<or> p = ''0X'' then radixLiteral 16 (drop 2 t)
         else if p = ''0o'' \<or> p = ''0O'' then radixLiteral 8 (drop 2 t)
         else if p = ''0b'' \<or> p = ''0B'' then radixLiteral 2 (drop 2 t)
         else
           let (sg, u) = scanSign t
           in case scanUnsigned u of
                None \<Rightarrow> NaN
              | Some (n, r) \<Rightarrow> (if r = [] then js_mul (Finite sg) n else NaN))"

text \<open>\<open>s.split(c)\<close> and \<open>s.replace(c, '')\<close> for a one-character pattern.\<close>

fun split :: "char \<Rightarrow> string \<Rightarrow> string list" where
  "split c [] = [[]]"
| "split c (x # xs) =
     (if x = c then [] # split c xs
      else case split c xs of
             p # ps \<Rightarrow> (x # p) # ps
           | [] \<Rightarrow> [[x]])"

fun removeFirst :: "char \<Rightarrow> string \<Rightarrow> string" where
  "removeFirst c [] = []"
| "removeFirst c (x # xs) = (if x = c then xs else x # removeFirst c xs)"

text \<open>Decimal digits of a natural number, as \<open>Number::toString\<close> and \<open>toFixed\<close> print an integer.\<close>

fun showNat :: "nat \<Rightarrow> string" where
  "showNat n = (if n < 10 then [char_of (48 + n)] else showNat (n div 10) @ [char_of (48 + n mod 10)])"

declare showNat.simps [simp del]

text \<open>
  \<open>x.toFixed(f)\<close>: the integer \<open>n\<close> with \<open>n / 10^f\<close> nearest to \<open>|x|\<close> (the larger on a
  tie), printed with \<open>f\<close> digits after the point (\<open>printFixed\<close>); a non-finite \<open>x\<close> and
  one of magnitude \<open>10^21\<close> or more are printed by \<open>ToString\<close>.
\<close>

definition printFixed :: "nat \<Rightarrow> nat \<Rightarrow> string" where
  "printFixed n f =
     (let m = showNat n
      in if f = 0 then m
         else let z = replicate (Suc f - length m) (CHR ''0'') @ m
              in take (length z - f) z @ ''.'' @ drop (length z - f) z)"

definition toFixed :: "(jsnum \<Rightarrow> string) \<Rightarrow> jsnum \<Rightarrow> nat \<Rightarrow> string" where
  "toFixed toStr x f =
     (case x of
        Finite r \<Rightarrow>
          if 10 ^ 21 \<le> \<bar>r\<bar> then toStr x
          else (if r < 0 then ''-'' else []) @ printFixed (nat \<lfloor>\<bar>r\<bar> * 10 ^ f + 1 / 2\<rfloor>) f
      | _ \<Rightarrow> toStr x)"

section \<open>Errors\<close>

text \<open>
  \<open>Error msg\<close> is the source's \<open>throw new Error(msg)\<close>; \<open>TypeError\<close> and \<open>RangeError\<close> are
  the engine's own (a property read of \<open>undefined\<close>, a call of a missing method, an
  exhausted call stack).
\<close>

datatype error = Error string | TypeError | RangeError

section \<open>Odds conversion (oddsConverter.js)\<close>

definition DECIMAL :: string where "DECIMAL = ''decimal''"
definition AMERICAN :: string where "AMERICAN = ''american''"
definition FRACTIONAL :: string where "FRACTIONAL = ''fractional''"
definition IMPLIED :: string where "IMPLIED = ''implied''"

definition decimalToAmerican :: "jsnum \<Rightarrow> jsnum" where
  "decimalToAmerican decimal =
     (if js_ge decimal (Finite 2) then
        Math_round (js_mul (js_sub decimal (Finite 1)) (Finite 100))
      else
        Math_round (js_div (Finite (- 100)) (js_sub decimal (Finite 1))))"

text \<open>Nothing in the body of \<open>americanToDecimal\<close> can throw on a number or a string, so its \<open>catch\<close> is dead.\<close>

definition americanToDecimal :: "jsval \<Rightarrow> jsnum" where
  "americanToDecimal american =
     (let num = (case american of
                   JStr s \<Rightarrow> parseInt_string (removeFirst (CHR ''+'') s)
                 | JNum n \<Rightarrow> n)
      in if js_gt num (Finite 0) then
           Math_max (js_add (js_div num (Finite 100)) (Finite 1)) (Finite (101 / 100))
         else if js_lt num (Finite 0) then
           (let absNum = Math_abs num
            in if js_lt absNum (Finite 100) then Finite (101 / 100)
               else Math_max (js_add (js_div (Finite 100) absNum) (Finite 1)) (Finite (101 / 100)))
         else Finite (101 / 100))"

text \<open>
  The body of \<open>fractionalToDecimal\<close>: a number has no \<open>split\<close> method (TypeError); a
  text without \<open>/\<close> leaves the denominator \<open>undefined\<close>, which \<open>isNaN\<close> reports as NaN.
\<close>

definition fractionalToDecimal_body :: "jsval \<Rightarrow> error + jsnum" where
  "fractionalToDecimal_body fractional =
     (case fractional of
        JNum _ \<Rightarrow> Inl TypeError
      | JStr s \<Rightarrow>
          (case map Number_string (split (CHR ''/'') s) of
             numerator # denominator # _ \<Rightarrow>
               if isNaN numerator \<or> isNaN denominator \<or> js_eq denominator (Finite 0) then
                 Inr (Finite (101 / 100))
               else
                 (let result = js_add (js_div numerator denominator) (Finite 1)
                  in if \<not> isFinite result \<or> js_lt result (Finite (101 / 100)) then
                       Inr (Finite (101 / 100))
                     else Inr result)
           | _ \<Rightarrow> Inr (Finite (101 / 100))))"

definition fractionalToDecimal :: "jsval \<Rightarrow> jsnum" where
  "fractionalToDecimal fractional =
     (case fractionalToDecimal_body fractional of
        Inr r \<Rightarrow> r
      | Inl _ \<Rightarrow> Finite (101 / 100))"

text \<open>JavaScript's \<open>%\<close> on integers: the remainder takes the sign of the dividend.\<close>

definition js_rem :: "int \<Rightarrow> int \<Rightarrow> int" where
  "js_rem a b = sgn a * (\<bar>a\<bar> mod \<bar>b\<bar>)"

function gcd_js :: "int \<Rightarrow> int \<Rightarrow> int" where
  "gcd_js a b = (if b = 0 then a else gcd_js b (js_rem a b))"
  by pat_completeness auto
termination
  by (relation "measure (\<lambda>(a, b). nat \<bar>b\<bar>)") (auto simp: js_rem_def abs_mult abs_sgn_eq)

declare gcd_js.simps [simp del]

text \<open>
  \<open>decimalToFractional\<close>: the numerator is \<open>Math.round\<close> of a product, an integer when
  it is finite. When it is NaN or infinite the inner \<open>gcd\<close> never meets \<open>b === 0\<close> and the
  recursion exhausts the call stack.
\<close>

definition decimalToFractional :: "(jsnum \<Rightarrow> string) \<Rightarrow> jsnum \<Rightarrow> error + string" where
  "decimalToFractional toStr decimal =
     (let fraction = js_sub decimal (Finite 1)
      in case Math_round (js_mul fraction (Finite 100)) of
           Finite n \<Rightarrow>
             (let numerator = \<lfloor>n\<rfloor>;
                  denominator = 100;
                  divisor = gcd_js numerator denominator
              in Inr (toStr (js_div (Finite (of_int numerator)) (Finite (of_int divisor)))
                      @ ''/'' @ toStr (js_div (Finite (of_int denominator)) (Finite (of_int divisor)))))
         | _ \<Rightarrow> Inl RangeError)"

definition decimalToImpliedProbability :: "jsnum \<Rightarrow> jsnum" where
  "decimalToImpliedProbability decimal =
     (if js_lt decimal (Finite (101 / 100)) \<or> \<not> isFinite decimal then Finite 0
      else js_mul (js_div (Finite 1) decimal) (Finite 100))"

definition impliedProbabilityToDecimal :: "jsnum \<Rightarrow> jsnum" where
  "impliedProbabilityToDecimal probability =
     (if js_le probability (Finite 0) \<or> js_ge probability (Finite 100) \<or> \<not> isFinite probability
      then Finite (101 / 100)
      else js_div (Finite 100) probability)"

text \<open>
  \<open>convertToDecimal\<close>: the \<open>switch\<close> on the type tag, then the guard. No branch can throw
  (\<open>fractionalToDecimal\<close> catches its own TypeError), so the outer \<open>catch\<close> is dead.
\<close>

definition convertToDecimal :: "(jsnum \<Rightarrow> string) \<Rightarrow> jsval \<Rightarrow> string \<Rightarrow> jsnum" where
  "convertToDecimal toStr odds type =
     (let result =
            (if type = DECIMAL then parseFloat toStr odds
             else if type = AMERICAN then americanToDecimal (JNum (parseInt toStr odds))
             else if type = FRACTIONAL then fractionalToDecimal odds
             else if type = IMPLIED then impliedProbabilityToDecimal (parseFloat toStr odds)
             else parseFloat toStr odds)
      in if \<not> isFinite result \<or> js_lt result (Finite (101 / 100)) then Finite (101 / 100)
         else result)"

definition formatOdds :: "(jsnum \<Rightarrow> string) \<Rightarrow> jsnum \<Rightarrow> string \<Rightarrow> error + string" where
  "formatOdds toStr decimal targetType =
     (if targetType = DECIMAL then Inr (toFixed toStr decimal 2)
      else if targetType = AMERICAN then
        (let american = decimalToAmerican decimal
         in Inr (if js_gt american (Finite 0) then ''+'' @ toStr american else toStr american))
      else if targetType = FRACTIONAL then decimalToFractional toStr decimal
      else if targetType = IMPLIED then
        Inr (toFixed toStr (decimalToImpliedProbability decimal) 1 @ ''%'')
      else Inr (toFixed toStr decimal 2))"

text \<open>
  The object \<open>calculatePayout\<close> returns; its fields \<open>profit\<close> and \<open>odds\<close> are \<open>payoutProfit\<close>
  and \<open>payoutOdds\<close> here.
\<close>

record payout =
  stake :: jsnum
  payoutProfit :: jsnum
  totalReturn :: jsnum
  payoutOdds :: jsnum

definition calculatePayout :: "jsnum \<Rightarrow> jsnum \<Rightarrow> payout" where
  "calculatePayout stk dOdds =
     (let tr = js_mul stk dOdds;
          pr = js_sub tr stk
      in \<lparr> stake = stk, payoutProfit = pr, totalReturn = tr, payoutOdds = dOdds \<rparr>)"

section \<open>The progression (martingaleCalculator.js)\<close>

text \<open>
  The configuration object. \<open>baseBet\<close> and \<open>bankroll\<close> are numbers and \<open>odds\<close> is a
  number or a string (the \<open>typeof\<close> checks of the source reject every other type,
  which these field types leave out). A field with a default is \<open>None\<close> when the
  caller leaves it out: \<open>maxRounds = 20\<close>, \<open>betMultiplier = 2\<close>, \<open>targetProfit = null\<close>,
  \<open>maxTableLimit = null\<close>.
\<close>

record config =
  baseBet :: jsnum
  bankroll :: jsnum
  odds :: jsval
  oddsType :: string
  maxRounds :: "jsnum option"
  targetProfit :: "jsnum option"
  betMultiplier :: "jsnum option"
  maxTableLimit :: "jsnum option"

text \<open>One entry of the progression (the field \<open>round\<close> of the source is \<open>round_no\<close>).\<close>

record progression_round =
  round_no :: nat
  betAmount :: jsnum
  cumulativeLoss :: jsnum
  totalWagered :: jsnum
  potentialWin :: jsnum
  netProfitIfWin :: jsnum
  totalReturnIfWin :: jsnum
  remainingBankroll :: jsnum
  breakeven :: bool
  targetMet :: bool

record statistics =
  maxPossibleRounds :: nat
  bustProbability :: jsnum
  winProbabilityAtLeastOnce :: jsnum
  expectedValue :: jsnum
  riskOfRuin :: jsnum
  maxDrawdown :: jsnum
  kellyCriterion :: jsnum
  recommendedBankroll :: jsnum
  averageProfit :: jsnum
  worstCaseScenario :: jsnum

text \<open>The returned \<open>config\<close>: the caller's fields and the three derived ones.\<close>

record config_out = config +
  decimalOdds :: jsnum
  winProbability :: jsnum
  lossProbability :: jsnum

record result =
  progression :: "progression_round list"
  stats :: statistics
  configOut :: config_out

text \<open>\<open>x && c\<close> and \<open>x ? a : b\<close> on an optional number: \<open>null\<close>, \<open>0\<close> and \<open>NaN\<close> are falsy.\<close>

definition truthyOpt :: "jsnum option \<Rightarrow> bool" where
  "truthyOpt x = (case x of None \<Rightarrow> False | Some v \<Rightarrow> truthy v)"

definition orNull :: "jsnum option \<Rightarrow> jsnum" where
  "orNull x = (case x of None \<Rightarrow> Finite 0 | Some v \<Rightarrow> v)"

text \<open>
  The body of the \<open>while\<close> loop from \<open>calculatePayout\<close> to \<open>progression.push\<close>: the
  round it emits, from the loop variables on entry (\<open>currentBet\<close>, \<open>totalLoss\<close>,
  \<open>totalWagered\<close>, \<open>round\<close>, \<open>remainingBankroll\<close>; here \<open>currentBet\<close>, \<open>totalLoss\<close>,
  \<open>wagered\<close>, \<open>rnd\<close>, \<open>remaining\<close>). The three sums are updated before the round is built.
\<close>

definition emitRound ::
  "jsnum \<Rightarrow> jsnum option \<Rightarrow> jsnum \<Rightarrow> jsnum \<Rightarrow> jsnum \<Rightarrow> nat \<Rightarrow> jsnum \<Rightarrow> progression_round" where
  "emitRound dOdds target currentBet totalLoss wagered rnd remaining =
     (let po = calculatePayout currentBet dOdds;
          wagered' = js_add wagered currentBet;
          totalLoss' = js_add totalLoss currentBet;
          remaining' = js_sub remaining currentBet;
          npw = js_sub (payoutProfit po) (js_sub totalLoss' currentBet)
      in \<lparr> round_no = rnd,
           betAmount = currentBet,
           cumulativeLoss = js_sub totalLoss' currentBet,
           totalWagered = wagered',
           potentialWin = payoutProfit po,
           netProfitIfWin = npw,
           totalReturnIfWin = totalReturn po,
           remainingBankroll = remaining',
           breakeven = js_ge npw (Finite 0),
           targetMet = (if truthyOpt target then js_ge npw (orNull target)
                        else js_gt npw (Finite 0)) \<rparr>)"

text \<open>
  The \<open>while (round <= maxRounds)\<close> loop. With \<open>maxRounds = Infinity\<close> the loop need
  not end: the result is \<open>None\<close> when it does not.
\<close>

partial_function (option) progressionLoop ::
  "jsnum \<Rightarrow> jsnum \<Rightarrow> jsnum option \<Rightarrow> jsnum \<Rightarrow> jsnum option \<Rightarrow>
   progression_round list \<Rightarrow> jsnum \<Rightarrow> jsnum \<Rightarrow> jsnum \<Rightarrow> nat \<Rightarrow> jsnum \<Rightarrow>
   progression_round list option"
where
  "progressionLoop dOdds maxRnds target multiplier tableLimit
       prog currentBet totalLoss wagered rnd remaining =
     (if js_le (Finite (real rnd)) maxRnds then
        (if js_gt currentBet remaining then Some prog
         else if truthyOpt tableLimit \<and> js_gt currentBet (orNull tableLimit) then Some prog
         else
           (let row = emitRound dOdds target currentBet totalLoss wagered rnd remaining
            in if truthyOpt target \<and> js_ge (netProfitIfWin row) (orNull target) then
                 Some (prog @ [row])
               else progressionLoop dOdds maxRnds target multiplier tableLimit
                      (prog @ [row]) (js_mul currentBet multiplier)
                      (js_add totalLoss currentBet) (js_add wagered currentBet)
                      (Suc rnd) (js_sub remaining currentBet)))
      else Some prog)"

declare progressionLoop.simps [code]

definition calculateRiskOfRuin :: "jsnum \<Rightarrow> jsnum \<Rightarrow> jsnum \<Rightarrow> jsnum" where
  "calculateRiskOfRuin bankrollV unitSize winP =
     (if js_le bankrollV (Finite 0) \<or> js_le unitSize (Finite 0) \<or> js_le winP (Finite 0)
         \<or> js_ge winP (Finite 1) then Finite 1
      else
        let units = Math_floor (js_div bankrollV unitSize);
            lossP = js_sub (Finite 1) winP
        in if js_eq winP (Finite (1 / 2)) then Finite 1
           else
             let q_p = js_div lossP winP
             in if js_eq q_p (Finite 1) then Finite 1
                else if \<not> isFinite q_p \<or> js_le q_p (Finite 0) then Finite 1
                else
                  let risk = Math_pow q_p units
                  in Math_min (Math_max risk (Finite 0)) (Finite 1))"

definition calculateKellyCriterion :: "jsnum \<Rightarrow> jsnum \<Rightarrow> jsnum" where
  "calculateKellyCriterion dOdds winP =
     (if js_le dOdds (Finite 1) \<or> js_le winP (Finite 0) \<or> js_ge winP (Finite 1) then Finite 0
      else
        let b = js_sub dOdds (Finite 1);
            p = winP;
            q = js_sub (Finite 1) winP;
            kelly = js_div (js_sub (js_mul b p) q) b
        in if \<not> isFinite kelly \<or> isNaN kelly then Finite 0
           else Math_max (Finite 0) (Math_min kelly (Finite 1)))"

text \<open>The \<open>for\<close> loop of \<open>calculateStatistics\<close> that sums the expected value, from index \<open>i\<close> on.\<close>

fun expectedValueLoop :: "jsnum \<Rightarrow> jsnum \<Rightarrow> progression_round list \<Rightarrow> nat \<Rightarrow> jsnum \<Rightarrow> jsnum" where
  "expectedValueLoop lossP winP [] i ev = ev"
| "expectedValueLoop lossP winP (roundData # rest) i ev =
     expectedValueLoop lossP winP rest (Suc i)
       (if \<not> isNaN (netProfitIfWin roundData) then
          (let winOnThisRound = js_mul (Math_pow lossP (Finite (real i))) winP
           in js_add ev (js_mul winOnThisRound (netProfitIfWin roundData)))
        else ev)"

text \<open>\<open>progression[progression.length - 1]\<close>: \<open>undefined\<close> (here \<open>None\<close>) for the empty array.\<close>

definition lastRoundOf :: "progression_round list \<Rightarrow> progression_round option" where
  "lastRoundOf prog = (if prog = [] then None else Some (last prog))"

definition calculateStatistics ::
  "progression_round list \<Rightarrow> jsnum \<Rightarrow> jsnum \<Rightarrow> jsnum \<Rightarrow> jsnum \<Rightarrow> jsnum \<Rightarrow> jsnum \<Rightarrow> statistics" where
  "calculateStatistics prog winP lossP bankrollV baseBetV dOdds maxRnds =
     (let lastRound = lastRoundOf prog;
          n = length prog;
          bust = Math_pow lossP (Finite (real n));
          atLeastOnce = js_sub (Finite 1) bust;
          ev1 = expectedValueLoop lossP winP prog 0 (Finite 0);
          ev2 = (case lastRound of
                   Some lr \<Rightarrow>
                     if \<not> isNaN (totalWagered lr) then
                       js_add ev1 (js_mul bust (js_neg (totalWagered lr)))
                     else ev1
                 | None \<Rightarrow> ev1);
          ev3 = (if \<not> isFinite ev2 then Finite 0 else ev2);
          ruin = calculateRiskOfRuin bankrollV baseBetV winP;
          drawdown = (case lastRound of Some lr \<Rightarrow> totalWagered lr | None \<Rightarrow> Finite 0);
          kelly = calculateKellyCriterion dOdds winP
      in \<lparr> maxPossibleRounds = n,
           bustProbability = js_mul bust (Finite 100),
           winProbabilityAtLeastOnce = js_mul atLeastOnce (Finite 100),
           expectedValue = ev3,
           riskOfRuin = js_mul ruin (Finite 100),
           maxDrawdown = drawdown,
           kellyCriterion = js_mul kelly (Finite 100),
           recommendedBankroll = js_mul baseBetV (Finite 20),
           averageProfit = (case lastRound of Some lr \<Rightarrow> netProfitIfWin lr | None \<Rightarrow> Finite 0),
           worstCaseScenario =
             (case lastRound of Some lr \<Rightarrow> js_neg (totalWagered lr) | None \<Rightarrow> Finite 0) \<rparr>)"

definition maxRoundsOf :: "config \<Rightarrow> jsnum" where
  "maxRoundsOf cfg = (case maxRounds cfg of None \<Rightarrow> Finite 20 | Some m \<Rightarrow> m)"

definition betMultiplierOf :: "config \<Rightarrow> jsnum" where
  "betMultiplierOf cfg = (case betMultiplier cfg of None \<Rightarrow> Finite 2 | Some m \<Rightarrow> m)"

text \<open>
  \<open>calculateMartingaleProgression\<close>: \<open>Some (Inl e)\<close> when it throws \<open>e\<close>, \<open>Some (Inr r)\<close>
  when it returns \<open>r\<close>, \<open>None\<close> when its loop does not end.
\<close>

definition calculateMartingaleProgression ::
  "(jsnum \<Rightarrow> string) \<Rightarrow> config \<Rightarrow> (error + result) option" where
  "calculateMartingaleProgression toStr cfg =
     (if js_le (baseBet cfg) (Finite 0) \<or> \<not> isFinite (baseBet cfg) then
        Some (Inl (Error ''Base bet must be a positive number''))
      else if js_le (bankroll cfg) (Finite 0) \<or> \<not> isFinite (bankroll cfg) then
        Some (Inl (Error ''Bankroll must be a positive number''))
      else if oddsType cfg = [] \<or> oddsType cfg \<notin> set [DECIMAL, AMERICAN, FRACTIONAL, IMPLIED] then
        Some (Inl (Error ''Invalid odds type''))
      else
        let dOdds = convertToDecimal toStr (odds cfg) (oddsType cfg)
        in if js_le dOdds (Finite 1) then
             Some (Inl (Error ''Invalid odds - must be greater than 1.00''))
           else
             let winP = js_div (decimalToImpliedProbability dOdds) (Finite 100);
                 lossP = js_sub (Finite 1) winP
             in if \<not> isFinite winP \<or> js_le winP (Finite 0) \<or> js_ge winP (Finite 1) then
                  Some (Inl (Error ''Invalid probability calculation''))
                else
                  case progressionLoop dOdds (maxRoundsOf cfg) (targetProfit cfg)
                         (betMultiplierOf cfg) (maxTableLimit cfg)
                         [] (baseBet cfg) (Finite 0) (Finite 0) 1 (bankroll cfg) of
                    None \<Rightarrow> None
                  | Some prog \<Rightarrow>
                      Some (Inr \<lparr> progression = prog,
                                  stats = calculateStatistics prog winP lossP (bankroll cfg)
                                            (baseBet cfg) dOdds (maxRoundsOf cfg),
                                  configOut = config.extend cfg
                                    (config_out.fields dOdds (js_mul winP (Finite 100))
                                       (js_mul lossP (Finite 100))) \<rparr>))"

section \<open>The session simulator (martingaleCalculator.js)\<close>

text \<open>
  What one simulated session returns (the field \<open>totalWagered\<close> of the source is
  \<open>sessionWagered\<close>) and the summary (\<open>averageProfit\<close> of the source is \<open>meanProfit\<close>).
\<close>

record session_result =
  won :: bool
  roundsPlayed :: nat
  profit :: jsnum
  sessionWagered :: jsnum

record summary =
  totalSessions :: jsnum
  wins :: nat
  losses :: nat
  winRate :: jsnum
  meanProfit :: jsnum
  maxProfit :: jsnum
  maxLoss :: jsnum
  profitableSessions :: nat

record simulation =
  results :: "session_result list"
  summary :: summary

text \<open>
  The effects of a simulation: \<open>draws\<close> counts the calls of \<open>Math.random()\<close> (the
  \<open>k\<close>-th call returns \<open>rand k\<close> of a given sequence \<open>rand\<close>), and \<open>builds\<close> counts the
  calls of \<open>calculateMartingaleProgression\<close>.
\<close>

record sim_state =
  draws :: nat
  builds :: nat

text \<open>
  The \<open>for\<close> loop of \<open>simulateSingleSession\<close> from index \<open>i\<close> on, over the rounds
  from \<open>i\<close>: the session it returns at the first winning draw, if any, and the
  number of draws so far.
\<close>

fun playRounds ::
  "(nat \<Rightarrow> real) \<Rightarrow> jsnum \<Rightarrow> progression_round list \<Rightarrow> nat \<Rightarrow> nat \<Rightarrow> session_result option \<times> nat" where
  "playRounds rand winP [] i d = (None, d)"
| "playRounds rand winP (r # rs) i d =
     (let random = rand d
      in if js_lt (Finite random) winP then
           (Some \<lparr> won = True, roundsPlayed = i + 1, profit = netProfitIfWin r,
                   sessionWagered = totalWagered r \<rparr>, Suc d)
         else playRounds rand winP rs (Suc i) (Suc d))"

text \<open>
  \<open>simulateSingleSession\<close>: it builds the progression of \<open>config\<close> itself. After a
  session without a win it reads \<open>lastRound.totalWagered\<close>, a TypeError when the
  progression is empty and \<open>lastRound\<close> is \<open>undefined\<close>.
\<close>

definition simulateSingleSession ::
  "(jsnum \<Rightarrow> string) \<Rightarrow> (nat \<Rightarrow> real) \<Rightarrow> config \<Rightarrow> jsnum \<Rightarrow> sim_state \<Rightarrow>
   (error + session_result \<times> sim_state) option" where
  "simulateSingleSession toStr rand cfg winP st =
     (case calculateMartingaleProgression toStr cfg of
        None \<Rightarrow> None
      | Some (Inl e) \<Rightarrow> Some (Inl e)
      | Some (Inr res) \<Rightarrow>
          (let prog = progression res;
               st1 = st\<lparr> builds := Suc (builds st) \<rparr>
           in case playRounds rand winP prog 0 (draws st1) of
                (Some r, d) \<Rightarrow> Some (Inr (r, st1\<lparr> draws := d \<rparr>))
              | (None, d) \<Rightarrow>
                  (case lastRoundOf prog of
                     None \<Rightarrow> Some (Inl TypeError)
                   | Some lastRound \<Rightarrow>
                       Some (Inr (\<lparr> won = False, roundsPlayed = length prog,
                                    profit = js_neg (totalWagered lastRound),
                                    sessionWagered = totalWagered lastRound \<rparr>,
                                  st1\<lparr> draws := d \<rparr>)))))"

text \<open>
  The loop \<open>for (session = 0; session < numSessions; session++)\<close> of
  \<open>simulateMartingaleSessions\<close>, for a finite \<open>numSessions\<close>.
\<close>

function sessionsLoop ::
  "(jsnum \<Rightarrow> string) \<Rightarrow> (nat \<Rightarrow> real) \<Rightarrow> config \<Rightarrow> jsnum \<Rightarrow> real \<Rightarrow> nat \<Rightarrow>
   session_result list \<Rightarrow> sim_state \<Rightarrow> (error + session_result list \<times> sim_state) option" where
  "sessionsLoop toStr rand cfg winP numSessions session acc st =
     (if real session < numSessions then
        (case simulateSingleSession toStr rand cfg winP st of
           None \<Rightarrow> None
         | Some (Inl e) \<Rightarrow> Some (Inl e)
         | Some (Inr (sessionResult, st')) \<Rightarrow>
             sessionsLoop toStr rand cfg winP numSessions (Suc session) (acc @ [sessionResult]) st')
      else Some (Inr (acc, st)))"
  by pat_completeness auto
termination
proof (relation "measure (\<lambda>(toStr, rand, cfg, winP, numSessions, session, acc, st).
        nat \<lceil>numSessions\<rceil> - session)", goal_cases)
  case 1
  show ?case by simp
next
  case (2 toStr rand cfg winP numSessions session st x sessionResult st')
  from \<open>real session < numSessions\<close> have "int session < \<lceil>numSessions\<rceil>"
    by (simp add: less_ceiling_iff)
  then show ?case by simp
qed

declare sessionsLoop.simps [simp del]

definition summarize :: "jsnum \<Rightarrow> session_result list \<Rightarrow> summary" where
  "summarize numSessions rs =
     (let profits = map profit rs;
          w = length (filter won rs);
          l = length (filter (\<lambda>r. \<not> won r) rs)
      in \<lparr> totalSessions = numSessions,
           wins = w,
           losses = l,
           winRate = js_mul (js_div (Finite (real w)) numSessions) (Finite 100),
           meanProfit = js_div (foldl js_add (Finite 0) profits) numSessions,
           maxProfit = foldl Math_max NegInfinity profits,
           maxLoss = foldl Math_min PosInfinity profits,
           profitableSessions = length (filter (\<lambda>r. js_gt (profit r) (Finite 0)) rs) \<rparr>)"

text \<open>
  \<open>simulateMartingaleSessions\<close>, started in state \<open>st\<close>: what it throws or returns, and
  the state it leaves.
\<close>

definition simulateMartingaleSessions ::
  "(jsnum \<Rightarrow> string) \<Rightarrow> (nat \<Rightarrow> real) \<Rightarrow> config \<Rightarrow> jsnum \<Rightarrow> sim_state \<Rightarrow>
   (error + simulation \<times> sim_state) option" where
  "simulateMartingaleSessions toStr rand cfg numSessions st =
     (if js_le numSessions (Finite 0) \<or> js_gt numSessions (Finite 100000)
         \<or> \<not> isFinite numSessions then
        Some (Inl (Error ''Number of sessions must be between 1 and 100,000''))
      else
        case calculateMartingaleProgression toStr cfg of
          None \<Rightarrow> None
        | Some (Inl e) \<Rightarrow> Some (Inl e)
        | Some (Inr progressionResults) \<Rightarrow>
            (let st1 = st\<lparr> builds := Suc (builds st) \<rparr>;
                 dOdds = decimalOdds (configOut progressionResults);
                 winP = js_div (decimalToImpliedProbability dOdds) (Finite 100)
             in if \<not> isFinite winP \<or> js_le winP (Finite 0) \<or> js_gt winP (Finite 1) then
                  Some (Inl (Error ''Invalid win probability for simulation''))
                else
                  case sessionsLoop toStr rand cfg winP
                         (case numSessions of Finite n \<Rightarrow> n | _ \<Rightarrow> 0) 0 [] st1 of
                    None \<Rightarrow> None
                  | Some (Inl e) \<Rightarrow> Some (Inl e)
                  | Some (Inr (rs, st2)) \<Rightarrow>
                      Some (Inr (\<lparr> results = rs, summary = summarize numSessions rs \<rparr>, st2))))"

text \<open>
  The simulator as the specification words it: the progression is built once and
  every trial reads that one table.
\<close>

definition spec_trialOnTable ::
  "(nat \<Rightarrow> real) \<Rightarrow> progression_round list \<Rightarrow> jsnum \<Rightarrow> nat \<Rightarrow> (error + session_result \<times> nat)" where
  "spec_trialOnTable rand table winP d =
     (case playRounds rand winP table 0 d of
        (Some r, d') \<Rightarrow> Inr (r, d')
      | (None, d') \<Rightarrow>
          (case lastRoundOf table of
             None \<Rightarrow> Inl TypeError
           | Some lastRound \<Rightarrow>
               Inr (\<lparr> won = False, roundsPlayed = length table,
                      profit = js_neg (totalWagered lastRound),
                      sessionWagered = totalWagered lastRound \<rparr>, d')))"

fun spec_trials ::
  "(nat \<Rightarrow> real) \<Rightarrow> progression_round list \<Rightarrow> jsnum \<Rightarrow> nat \<Rightarrow> nat \<Rightarrow> (error + session_result list \<times> nat)" where
  "spec_trials rand table winP 0 d = Inr ([], d)"
| "spec_trials rand table winP (Suc k) d =
     (case spec_trialOnTable rand table winP d of
        Inl e \<Rightarrow> Inl e
      | Inr (r, d') \<Rightarrow>
          (case spec_trials rand table winP k d' of
             Inl e \<Rightarrow> Inl e
           | Inr (rs, d'') \<Rightarrow> Inr (r # rs, d'')))"

section \<open>Inputs for the examples\<close>

text \<open>
  An instance of \<open>toStr\<close> for the examples: the text JavaScript prints for an integer
  of magnitude below \<open>10^21\<close>, for NaN and for the infinities. The examples print no
  other number (the fraction of one would be dropped here).
\<close>

definition showNumber :: "jsnum \<Rightarrow> string" where
  "showNumber x =
     (case x of
        Finite r \<Rightarrow> (if r < 0 then ''-'' else []) @ showNat (nat \<lfloor>\<bar>r\<bar>\<rfloor>)
      | PosInfinity \<Rightarrow> ''Infinity''
      | NegInfinity \<Rightarrow> ''-Infinity''
      | NaN \<Rightarrow> ''NaN'')"

text \<open>The configuration of the test case "Standard case - 2.00 odds" (test-calculations.cjs).\<close>

definition standardCase :: config where
  "standardCase =
     \<lparr> baseBet = Finite 10, bankroll = Finite 1000, odds = JStr ''2.00'', oddsType = DECIMAL,
       maxRounds = Some (Finite 10), targetProfit = None, betMultiplier = Some (Finite 2),
       maxTableLimit = None \<rparr>"

text \<open>The same with a first bet of 20 and a bankroll of 10: the first bet is unaffordable.\<close>

definition unaffordableCase :: config where
  "unaffordableCase =
     \<lparr> baseBet = Finite 20, bankroll = Finite 10, odds = JStr ''2.00'', oddsType = DECIMAL,
       maxRounds = Some (Finite 10), targetProfit = None, betMultiplier = Some (Finite 2),
       maxTableLimit = None \<rparr>"

definition freshState :: sim_state where
  "freshState = \<lparr> draws = 0, builds = 0 \<rparr>"

section \<open>Relations used to state the properties\<close>


text \<open>Two sequences of draws: every draw is 0 (each session wins its first round), every draw is 0.9.\<close>

definition zeroDraws :: "nat \<Rightarrow> real" where
  "zeroDraws k = 0"

definition highDraws :: "nat \<Rightarrow> real" where
  "highDraws k = 9 / 10"

text \<open>The six rounds of the standard case.\<close>

definition standardTable :: "progression_round list" where
  "standardTable =
     map (\<lambda>i. emitRound (Finite 2) None (Finite (10 * 2 ^ i)) (Finite (10 * (2 ^ i - 1)))
                 (Finite (10 * (2 ^ i - 1))) (Suc i) (Finite (1000 - 10 * (2 ^ i - 1)))) [0..<6]"

section \<open>Double precision\<close>

text \<open>
  The functions above compute on exact reals. The ones of this part, named with the
  suffix \<open>64\<close>, compute as the engine does, in IEEE 754 binary64: a finite number is a
  double, and the result of an arithmetic operation on finite operands is the exact
  result rounded to the nearest double, a tie to the double with the even significand
  (\<open>round64\<close>); a rounded result of magnitude \<open>2^1024\<close> or more is an infinity (\<open>fl64\<close>).
  The sign of zero is still left out.

  \<open>expo x\<close> is the binary exponent of \<open>x\<close>, the \<open>e\<close> with \<open>2^e <= |x| < 2^(e+1)\<close>. A
  double has 53 significant bits and no exponent below \<open>-1022\<close>, so the doubles next to
  \<open>x\<close> are \<open>ulp64 x = 2^(max e (-1022) - 52)\<close> apart, and \<open>round64 x\<close> is the multiple of
  \<open>ulp64 x\<close> nearest to \<open>x\<close>.
\<close>

function expoUp :: "real \<Rightarrow> int" where
  "expoUp x = (if 2 \<le> x then expoUp (x / 2) + 1 else 0)"
  by pat_completeness auto
termination
proof (relation "measure (\<lambda>x. nat \<lfloor>x\<rfloor>)")
  show "wf (measure (\<lambda>x :: real. nat \<lfloor>x\<rfloor>))" by simp
next
  fix x :: real
  assume x: "2 \<le> x"
  have "\<lfloor>x / 2\<rfloor> < \<lfloor>x\<rfloor>"
  proof -
    have "x / 2 \<le> x - 1" using x by simp
    then have "\<lfloor>x / 2\<rfloor> \<le> \<lfloor>x - 1\<rfloor>" by (rule floor_mono)
    also have "\<dots> < \<lfloor>x\<rfloor>" by simp
    finally show ?thesis .
  qed
  moreover have "0 < \<lfloor>x\<rfloor>" using x by simp
  ultimately show "(x / 2, x) \<in> measure (\<lambda>x. nat \<lfloor>x\<rfloor>)" by simp
qed

function expoDown :: "real \<Rightarrow> int" where
  "expoDown x = (if 0 < x \<and> x < 1 then expoDown (2 * x) - 1 else 0)"
  by pat_completeness auto
termination
proof (relation "measure (\<lambda>x. nat \<lceil>1 / x\<rceil>)")
  show "wf (measure (\<lambda>x :: real. nat \<lceil>1 / x\<rceil>))" by simp
next
  fix x :: real
  assume x: "0 < x \<and> x < 1"
  define h where "h = 1 / x"
  from x have h: "1 < h" by (simp add: h_def)
  then have c: "2 \<le> \<lceil>h\<rceil>" by linarith
  then have c': "(2 :: real) \<le> of_int \<lceil>h\<rceil>" by linarith
  have "h \<le> of_int \<lceil>h\<rceil>" by (rule le_of_int_ceiling)
  with c' have "h / 2 \<le> of_int \<lceil>h\<rceil> - 1" by linarith
  then have "h / 2 \<le> of_int (\<lceil>h\<rceil> - 1)" by simp
  then have lt: "\<lceil>h / 2\<rceil> \<le> \<lceil>h\<rceil> - 1" by (simp only: ceiling_le_iff)
  have eq: "1 / (2 * x) = h / 2" by (simp add: h_def)
  have "nat \<lceil>h / 2\<rceil> < nat \<lceil>h\<rceil>" using lt c by linarith
  then show "(2 * x, x) \<in> measure (\<lambda>x. nat \<lceil>1 / x\<rceil>)"
    by (simp only: in_measure eq h_def [symmetric])
qed

declare expoUp.simps [simp del] expoDown.simps [simp del]

definition expo :: "real \<Rightarrow> int" where
  "expo x = (if 1 \<le> \<bar>x\<bar> then expoUp \<bar>x\<bar> else expoDown \<bar>x\<bar>)"

text \<open>The integer nearest to \<open>q\<close>, the even one of the two when \<open>q\<close> lies half-way.\<close>

definition rne :: "real \<Rightarrow> int" where
  "rne q =
     (let f = \<lfloor>q\<rfloor>; r = q - of_int f
      in if r < 1 / 2 then f else if 1 / 2 < r then f + 1 else if even f then f else f + 1)"

definition ulp64 :: "real \<Rightarrow> real" where
  "ulp64 x = 2 powi (max (expo x) (- 1022) - 52)"

definition round64 :: "real \<Rightarrow> real" where
  "round64 x = sgn x * (of_int (rne (\<bar>x\<bar> / ulp64 x)) * ulp64 x)"

definition fl64 :: "real \<Rightarrow> jsnum" where
  "fl64 x =
     (let y = round64 x
      in if 2 ^ 1024 \<le> \<bar>y\<bar> then (if 0 < y then PosInfinity else NegInfinity) else Finite y)"

text \<open>The Number value of a mathematical value (of a parsed literal).\<close>

fun toDouble :: "jsnum \<Rightarrow> jsnum" where
  "toDouble (Finite x) = fl64 x"
| "toDouble a = a"

text \<open>\<open>a + b\<close>, \<open>a - b\<close>, \<open>a * b\<close>, \<open>a / b\<close>: rounded on finite operands, as above otherwise.\<close>

fun add64 :: "jsnum \<Rightarrow> jsnum \<Rightarrow> jsnum" where
  "add64 (Finite a) (Finite b) = fl64 (a + b)"
| "add64 a b = js_add a b"

fun sub64 :: "jsnum \<Rightarrow> jsnum \<Rightarrow> jsnum" where
  "sub64 (Finite a) (Finite b) = fl64 (a - b)"
| "sub64 a b = js_sub a b"

fun mul64 :: "jsnum \<Rightarrow> jsnum \<Rightarrow> jsnum" where
  "mul64 (Finite a) (Finite b) = fl64 (a * b)"
| "mul64 a b = js_mul a b"

fun div64 :: "jsnum \<Rightarrow> jsnum \<Rightarrow> jsnum" where
  "div64 (Finite a) (Finite b) = (if b = 0 then js_div (Finite a) (Finite b) else fl64 (a / b))"
| "div64 a b = js_div a b"

text \<open>The literal \<open>1.01\<close> of the source: the double nearest to 1.01.\<close>

definition c101 :: jsnum where
  "c101 = fl64 (101 / 100)"

text \<open>
  \<open>Math.pow\<close> is implementation-approximated: on a finite non-zero base (with an
  integral exponent when the base is negative) and a finite non-zero exponent the
  result is \<open>pw base exponent\<close> for a parameter \<open>pw\<close>; the other cases are fixed by
  the language.
\<close>

fun Math_pow64 :: "(real \<Rightarrow> real \<Rightarrow> jsnum) \<Rightarrow> jsnum \<Rightarrow> jsnum \<Rightarrow> jsnum" where
  "Math_pow64 pw b (Finite e) =
     (if e = 0 then Finite 1
      else case b of
        Finite x \<Rightarrow>
          (if x = 0 then (if 0 < e then Finite 0 else PosInfinity)
           else if x < 0 \<and> e \<noteq> of_int \<lfloor>e\<rfloor> then NaN
           else pw x e)
      | _ \<Rightarrow> Math_pow b (Finite e))"
| "Math_pow64 pw b e = Math_pow b e"

definition parseFloat64 :: "(jsnum \<Rightarrow> string) \<Rightarrow> jsval \<Rightarrow> jsnum" where
  "parseFloat64 toStr v = toDouble (parseFloat toStr v)"

definition parseInt64 :: "(jsnum \<Rightarrow> string) \<Rightarrow> jsval \<Rightarrow> jsnum" where
  "parseInt64 toStr v = toDouble (parseInt toStr v)"

definition Number_string64 :: "string \<Rightarrow> jsnum" where
  "Number_string64 s = toDouble (Number_string s)"

subsection \<open>Odds conversion\<close>

definition decimalToAmerican64 :: "jsnum \<Rightarrow> jsnum" where
  "decimalToAmerican64 decimal =
     (if js_ge decimal (Finite 2) then
        Math_round (mul64 (sub64 decimal (Finite 1)) (Finite 100))
      else
        Math_round (div64 (Finite (- 100)) (sub64 decimal (Finite 1))))"

definition americanToDecimal64 :: "jsval \<Rightarrow> jsnum" where
  "americanToDecimal64 american =
     (let num = (case american of
                   JStr s \<Rightarrow> toDouble (parseInt_string (removeFirst (CHR ''+'') s))
                 | JNum n \<Rightarrow> n)
      in if js_gt num (Finite 0) then
           Math_max (add64 (div64 num (Finite 100)) (Finite 1)) c101
         else if js_lt num (Finite 0) then
           (let absNum = Math_abs num
            in if js_lt absNum (Finite 100) then c101
               else Math_max (add64 (div64 (Finite 100) absNum) (Finite 1)) c101)
         else c101)"

definition fractionalToDecimal_body64 :: "jsval \<Rightarrow> error + jsnum" where
  "fractionalToDecimal_body64 fractional =
     (case fractional of
        JNum _ \<Rightarrow> Inl TypeError
      | JStr s \<Rightarrow>
          (case map Number_string64 (split (CHR ''/'') s) of
             numerator # denominator # _ \<Rightarrow>
               if isNaN numerator \<or> isNaN denominator \<or> js_eq denominator (Finite 0) then
                 Inr c101
               else
                 (let result = add64 (div64 numerator denominator) (Finite 1)
                  in if \<not> isFinite result \<or> js_lt result c101 then Inr c101
                     else Inr result)
           | _ \<Rightarrow> Inr c101))"

definition fractionalToDecimal64 :: "jsval \<Rightarrow> jsnum" where
  "fractionalToDecimal64 fractional =
     (case fractionalToDecimal_body64 fractional of
        Inr r \<Rightarrow> r
      | Inl _ \<Rightarrow> c101)"

definition decimalToFractional64 :: "(jsnum \<Rightarrow> string) \<Rightarrow> jsnum \<Rightarrow> error + string" where
  "decimalToFractional64 toStr decimal =
     (let fraction = sub64 decimal (Finite 1)
      in case Math_round (mul64 fraction (Finite 100)) of
           Finite n \<Rightarrow>
             (let numerator = \<lfloor>n\<rfloor>;
                  denominator = 100;
                  divisor = gcd_js numerator denominator
              in Inr (toStr (div64 (Finite (of_int numerator)) (Finite (of_int divisor)))
                      @ ''/'' @ toStr (div64 (Finite (of_int denominator)) (Finite (of_int divisor)))))
         | _ \<Rightarrow> Inl RangeError)"

definition decimalToImpliedProbability64 :: "jsnum \<Rightarrow> jsnum" where
  "decimalToImpliedProbability64 decimal =
     (if js_lt decimal c101 \<or> \<not> isFinite decimal then Finite 0
      else mul64 (div64 (Finite 1) decimal) (Finite 100))"

definition impliedProbabilityToDecimal64 :: "jsnum \<Rightarrow> jsnum" where
  "impliedProbabilityToDecimal64 probability =
     (if js_le probability (Finite 0) \<or> js_ge probability (Finite 100) \<or> \<not> isFinite probability
      then c101
      else div64 (Finite 100) probability)"

definition convertToDecimal64 :: "(jsnum \<Rightarrow> string) \<Rightarrow> jsval \<Rightarrow> string \<Rightarrow> jsnum" where
  "convertToDecimal64 toStr oddsV type =
     (let result =
            (if type = DECIMAL then parseFloat64 toStr oddsV
             else if type = AMERICAN then americanToDecimal64 (JNum (parseInt64 toStr oddsV))
             else if type = FRACTIONAL then fractionalToDecimal64 oddsV
             else if type = IMPLIED then impliedProbabilityToDecimal64 (parseFloat64 toStr oddsV)
             else parseFloat64 toStr oddsV)
      in if \<not> isFinite result \<or> js_lt result c101 then c101
         else result)"

definition formatOdds64 :: "(jsnum \<Rightarrow> string) \<Rightarrow> jsnum \<Rightarrow> string \<Rightarrow> error + string" where
  "formatOdds64 toStr decimal targetType =
     (if targetType = DECIMAL then Inr (toFixed toStr decimal 2)
      else if targetType = AMERICAN then
        (let american = decimalToAmerican64 decimal
         in Inr (if js_gt american (Finite 0) then ''+'' @ toStr american else toStr american))
      else if targetType = FRACTIONAL then decimalToFractional64 toStr decimal
      else if targetType = IMPLIED then
        Inr (toFixed toStr (decimalToImpliedProbability64 decimal) 1 @ ''%'')
      else Inr (toFixed toStr decimal 2))"

definition calculatePayout64 :: "jsnum \<Rightarrow> jsnum \<Rightarrow> payout" where
  "calculatePayout64 stk dOdds =
     (let tr = mul64 stk dOdds;
          pr = sub64 tr stk
      in \<lparr> stake = stk, payoutProfit = pr, totalReturn = tr, payoutOdds = dOdds \<rparr>)"

subsection \<open>The progression\<close>

text \<open>
  The counter \<open>round\<close> is a double as well, advanced by \<open>round++\<close>; it is a whole
  number at every iteration, the one the emitted round records (\<open>roundNumber\<close>).
\<close>

definition roundNumber :: "jsnum \<Rightarrow> nat" where
  "roundNumber r = (case r of Finite x \<Rightarrow> nat \<lfloor>x\<rfloor> | _ \<Rightarrow> 0)"

definition emitRound64 ::
  "jsnum \<Rightarrow> jsnum option \<Rightarrow> jsnum \<Rightarrow> jsnum \<Rightarrow> jsnum \<Rightarrow> jsnum \<Rightarrow> jsnum \<Rightarrow> progression_round" where
  "emitRound64 dOdds target currentBet totalLoss wagered rnd remaining =
     (let po = calculatePayout64 currentBet dOdds;
          wagered' = add64 wagered currentBet;
          totalLoss' = add64 totalLoss currentBet;
          remaining' = sub64 remaining currentBet;
          npw = sub64 (payoutProfit po) (sub64 totalLoss' currentBet)
      in \<lparr> round_no = roundNumber rnd,
           betAmount = currentBet,
           cumulativeLoss = sub64 totalLoss' currentBet,
           totalWagered = wagered',
           potentialWin = payoutProfit po,
           netProfitIfWin = npw,
           totalReturnIfWin = totalReturn po,
           remainingBankroll = remaining',
           breakeven = js_ge npw (Finite 0),
           targetMet = (if truthyOpt target then js_ge npw (orNull target)
                        else js_gt npw (Finite 0)) \<rparr>)"

text \<open>
  The \<open>while (round <= maxRounds)\<close> loop: \<open>None\<close> when it does not end.
\<close>

partial_function (option) progressionLoop64 ::
  "jsnum \<Rightarrow> jsnum \<Rightarrow> jsnum option \<Rightarrow> jsnum \<Rightarrow> jsnum option \<Rightarrow>
   progression_round list \<Rightarrow> jsnum \<Rightarrow> jsnum \<Rightarrow> jsnum \<Rightarrow> jsnum \<Rightarrow> jsnum \<Rightarrow>
   progression_round list option"
where
  "progressionLoop64 dOdds maxRnds target multiplier tableLimit
       prog currentBet totalLoss wagered rnd remaining =
     (if js_le rnd maxRnds then
        (if js_gt currentBet remaining then Some prog
         else if truthyOpt tableLimit \<and> js_gt currentBet (orNull tableLimit) then Some prog
         else
           (let row = emitRound64 dOdds target currentBet totalLoss wagered rnd remaining
            in if truthyOpt target \<and> js_ge (netProfitIfWin row) (orNull target) then
                 Some (prog @ [row])
               else progressionLoop64 dOdds maxRnds target multiplier tableLimit
                      (prog @ [row]) (mul64 currentBet multiplier)
                      (add64 totalLoss currentBet) (add64 wagered currentBet)
                      (add64 rnd (Finite 1)) (sub64 remaining currentBet)))
      else Some prog)"

declare progressionLoop64.simps [code]

definition calculateRiskOfRuin64 ::
  "(real \<Rightarrow> real \<Rightarrow> jsnum) \<Rightarrow> jsnum \<Rightarrow> jsnum \<Rightarrow> jsnum \<Rightarrow> jsnum" where
  "calculateRiskOfRuin64 pw bankrollV unitSize winP =
     (if js_le bankrollV (Finite 0) \<or> js_le unitSize (Finite 0) \<or> js_le winP (Finite 0)
         \<or> js_ge winP (Finite 1) then Finite 1
      else
        let units = Math_floor (div64 bankrollV unitSize);
            lossP = sub64 (Finite 1) winP
        in if js_eq winP (Finite (1 / 2)) then Finite 1
           else
             let q_p = div64 lossP winP
             in if js_eq q_p (Finite 1) then Finite 1
                else if \<not> isFinite q_p \<or> js_le q_p (Finite 0) then Finite 1
                else
                  let risk = Math_pow64 pw q_p units
                  in Math_min (Math_max risk (Finite 0)) (Finite 1))"

definition calculateKellyCriterion64 :: "jsnum \<Rightarrow> jsnum \<Rightarrow> jsnum" where
  "calculateKellyCriterion64 dOdds winP =
     (if js_le dOdds (Finite 1) \<or> js_le winP (Finite 0) \<or> js_ge winP (Finite 1) then Finite 0
      else
        let b = sub64 dOdds (Finite 1);
            p = winP;
            q = sub64 (Finite 1) winP;
            kelly = div64 (sub64 (mul64 b p) q) b
        in if \<not> isFinite kelly \<or> isNaN kelly then Finite 0
           else Math_max (Finite 0) (Math_min kelly (Finite 1)))"

fun expectedValueLoop64 ::
  "(real \<Rightarrow> real \<Rightarrow> jsnum) \<Rightarrow> jsnum \<Rightarrow> jsnum \<Rightarrow> progression_round list \<Rightarrow> nat \<Rightarrow> jsnum \<Rightarrow> jsnum"
where
  "expectedValueLoop64 pw lossP winP [] i ev = ev"
| "expectedValueLoop64 pw lossP winP (roundData # rest) i ev =
     expectedValueLoop64 pw lossP winP rest (Suc i)
       (if \<not> isNaN (netProfitIfWin roundData) then
          (let winOnThisRound = mul64 (Math_pow64 pw lossP (Finite (real i))) winP
           in add64 ev (mul64 winOnThisRound (netProfitIfWin roundData)))
        else ev)"

definition calculateStatistics64 ::
  "(real \<Rightarrow> real \<Rightarrow> jsnum) \<Rightarrow> progression_round list \<Rightarrow> jsnum \<Rightarrow> jsnum \<Rightarrow> jsnum \<Rightarrow> jsnum \<Rightarrow>
   jsnum \<Rightarrow> jsnum \<Rightarrow> statistics" where
  "calculateStatistics64 pw prog winP lossP bankrollV baseBetV dOdds maxRnds =
     (let lastRound = lastRoundOf prog;
          n = length prog;
          bust = Math_pow64 pw lossP (Finite (real n));
          atLeastOnce = sub64 (Finite 1) bust;
          ev1 = expectedValueLoop64 pw lossP winP prog 0 (Finite 0);
          ev2 = (case lastRound of
                   Some lr \<Rightarrow>
                     if \<not> isNaN (totalWagered lr) then
                       add64 ev1 (mul64 bust (js_neg (totalWagered lr)))
                     else ev1
                 | None \<Rightarrow> ev1);
          ev3 = (if \<not> isFinite ev2 then Finite 0 else ev2);
          ruin = calculateRiskOfRuin64 pw bankrollV baseBetV winP;
          drawdown = (case lastRound of Some lr \<Rightarrow> totalWagered lr | None \<Rightarrow> Finite 0);
          kelly = calculateKellyCriterion64 dOdds winP
      in \<lparr> maxPossibleRounds = n,
           bustProbability = mul64 bust (Finite 100),
           winProbabilityAtLeastOnce = mul64 atLeastOnce (Finite 100),
           expectedValue = ev3,
           riskOfRuin = mul64 ruin (Finite 100),
           maxDrawdown = drawdown,
           kellyCriterion = mul64 kelly (Finite 100),
           recommendedBankroll = mul64 baseBetV (Finite 20),
           averageProfit = (case lastRound of Some lr \<Rightarrow> netProfitIfWin lr | None \<Rightarrow> Finite 0),
           worstCaseScenario =
             (case lastRound of Some lr \<Rightarrow> js_neg (totalWagered lr) | None \<Rightarrow> Finite 0) \<rparr>)"

definition calculateMartingaleProgression64 ::
  "(real \<Rightarrow> real \<Rightarrow> jsnum) \<Rightarrow> (jsnum \<Rightarrow> string) \<Rightarrow> config \<Rightarrow> (error + result) option" where
  "calculateMartingaleProgression64 pw toStr cfg =
     (if js_le (baseBet cfg) (Finite 0) \<or> \<not> isFinite (baseBet cfg) then
        Some (Inl (Error ''Base bet must be a positive number''))
      else if js_le (bankroll cfg) (Finite 0) \<or> \<not> isFinite (bankroll cfg) then
        Some (Inl (Error ''Bankroll must be a positive number''))
      else if oddsType cfg = [] \<or> oddsType cfg \<notin> set [DECIMAL, AMERICAN, FRACTIONAL, IMPLIED] then
        Some (Inl (Error ''Invalid odds type''))
      else
        let dOdds = convertToDecimal64 toStr (odds cfg) (oddsType cfg)
        in if js_le dOdds (Finite 1) then
             Some (Inl (Error ''Invalid odds - must be greater than 1.00''))
           else
             let winP = div64 (decimalToImpliedProbability64 dOdds) (Finite 100);
                 lossP = sub64 (Finite 1) winP
             in if \<not> isFinite winP \<or> js_le winP (Finite 0) \<or> js_ge winP (Finite 1) then
                  Some (Inl (Error ''Invalid probability calculation''))
                else
                  case progressionLoop64 dOdds (maxRoundsOf cfg) (targetProfit cfg)
                         (betMultiplierOf cfg) (maxTableLimit cfg)
                         [] (baseBet cfg) (Finite 0) (Finite 0) (Finite 1) (bankroll cfg) of
                    None \<Rightarrow> None
                  | Some prog \<Rightarrow>
                      Some (Inr \<lparr> progression = prog,
                                  stats = calculateStatistics64 pw prog winP lossP (bankroll cfg)
                                            (baseBet cfg) dOdds (maxRoundsOf cfg),
                                  configOut = config.extend cfg
                                    (config_out.fields dOdds (mul64 winP (Finite 100))
                                       (mul64 lossP (Finite 100))) \<rparr>))"

subsection \<open>Inputs and relations for the properties in double precision\<close>

text \<open>
  An instance of \<open>pw\<close> for the examples, the correctly rounded power; the examples
  raise to powers that are doubles themselves.
\<close>

definition pow64 :: "real \<Rightarrow> real \<Rightarrow> jsnum" where
  "pow64 x e =
     (if e = of_int \<lfloor>e\<rfloor> then
        (if 0 \<le> \<lfloor>e\<rfloor> then fl64 (x ^ nat \<lfloor>e\<rfloor>) else fl64 (1 / x ^ nat (- \<lfloor>e\<rfloor>)))
      else fl64 (x powr e))"

text \<open>\<open>isDouble x\<close>: the real \<open>x\<close> is a double.\<close>

definition isDouble :: "real \<Rightarrow> bool" where
  "isDouble x = (round64 x = x \<and> \<bar>x\<bar> < 2 ^ 1024)"


text \<open>\<open>inRange64 a\<close>: the number \<open>a\<close>, when finite, is below \<open>2^1024\<close> in magnitude, as every double is.\<close>

definition inRange64 :: "jsnum \<Rightarrow> bool" where
  "inRange64 a = (case a of Finite r \<Rightarrow> \<bar>r\<bar> < 2 ^ 1024 | _ \<Rightarrow> True)"

text \<open>\<open>double64 a\<close>: the number \<open>a\<close>, when finite, is a double.\<close>

definition double64 :: "jsnum \<Rightarrow> bool" where
  "double64 a = (case a of Finite x \<Rightarrow> isDouble x | _ \<Rightarrow> True)"

text \<open>
  \<open>rowBefore64 a b\<close>: from round \<open>a\<close> to a later round \<open>b\<close> the bet and the total wagered
  do not shrink and the remaining bankroll does not grow. \<open>rowBelow64 r cb w rem\<close>: the
  same of round \<open>r\<close> against the loop variables. \<open>loopState64 cb w rem\<close>: the loop
  variables are doubles, the bet positive, the total wagered not negative, the remaining
  bankroll finite.
\<close>

definition rowBefore64 :: "progression_round \<Rightarrow> progression_round \<Rightarrow> bool" where
  "rowBefore64 a b =
     (js_le (betAmount a) (betAmount b)
      \<and> js_le (totalWagered a) (totalWagered b)
      \<and> js_ge (remainingBankroll a) (remainingBankroll b))"

definition rowBelow64 :: "progression_round \<Rightarrow> jsnum \<Rightarrow> jsnum \<Rightarrow> jsnum \<Rightarrow> bool" where
  "rowBelow64 r cb w rem =
     (js_le (betAmount r) cb
      \<and> js_le (totalWagered r) w
      \<and> js_le rem (remainingBankroll r))"

definition loopState64 :: "jsnum \<Rightarrow> jsnum \<Rightarrow> jsnum \<Rightarrow> bool" where
  "loopState64 cb w rem =
     (js_lt (Finite 0) cb \<and> double64 cb \<and> js_le (Finite 0) w \<and> double64 w
      \<and> isFinite rem \<and> double64 rem)"

text \<open>
  A first bet of \<open>2^-1074\<close>, the smallest positive double (\<open>5e-324\<close>), with the multiplier
  1.4: the product rounds back to \<open>2^-1074\<close>.
\<close>

definition subnormalCase :: config where
  "subnormalCase =
     \<lparr> baseBet = Finite (2 powi (- 1074)), bankroll = Finite 1, odds = JStr ''2.00'',
       oddsType = DECIMAL, maxRounds = Some (Finite 5), targetProfit = None,
       betMultiplier = Some (Finite (6305039478318694 / 4503599627370496)),
       maxTableLimit = None \<rparr>"

text \<open>
  A first bet of 3 with the multiplier \<open>5 * 2^51\<close> and three rounds: the second total of
  the losses keeps 4 of the first bet, the third nothing.
\<close>

definition steepCase :: config where
  "steepCase =
     \<lparr> baseBet = Finite 3, bankroll = Finite (2 ^ 200), odds = JStr ''2.00'',
       oddsType = DECIMAL, maxRounds = Some (Finite 3), targetProfit = None,
       betMultiplier = Some (Finite (5 * 2 ^ 51)), maxTableLimit = None \<rparr>"

section \<open>Evaluation and helper lemmas\<close>

lemmas parse_eval = parseFloat_def parseFloat_string_def parseInt_def parseInt_string_def
  Number_string_def radixLiteral_def trimStart_def trim_def isWhiteSpace_def scanUnsigned_def
  scanExponent_def scale10_def isDigit_def digitOf_def digitsValue_def

lemmas odds_eval = convertToDecimal_def DECIMAL_def AMERICAN_def FRACTIONAL_def IMPLIED_def
  americanToDecimal_def fractionalToDecimal_def fractionalToDecimal_body_def
  impliedProbabilityToDecimal_def decimalToImpliedProbability_def decimalToAmerican_def
  js_gt_def js_ge_def js_eq_def js_sub_def Math_max_def Math_min_def signed_inf_def

lemmas loop_eval = emitRound_def calculatePayout_def truthyOpt_def orNull_def truthy_def
  js_gt_def js_ge_def js_sub_def maxRoundsOf_def betMultiplierOf_def

lemma odds_guard:
  "\<exists>r. (if \<not> isFinite x \<or> js_lt x (Finite (101 / 100)) then Finite (101 / 100) else x) = Finite r
       \<and> 101 / 100 \<le> r"
proof (cases "\<not> isFinite x \<or> js_lt x (Finite (101 / 100))")
  case True
  then show ?thesis by (intro exI [of _ "101 / 100"]) simp
next
  case False
  then obtain r where "x = Finite r" "101 / 100 \<le> r" by (cases x) auto
  with False show ?thesis by (intro exI [of _ r]) simp
qed

lemma convertToDecimal_floor:
  "\<exists>r. convertToDecimal toStr v t = Finite r \<and> 101 / 100 \<le> r"
  unfolding convertToDecimal_def Let_def by (rule odds_guard)

lemma winP_of_odds:
  assumes "101 / 100 \<le> r"
  shows "js_div (decimalToImpliedProbability (Finite r)) (Finite 100) = Finite (1 / r)"
    and "0 < 1 / r" and "1 / r < 1"
  using assms by (simp_all add: decimalToImpliedProbability_def)

lemma real_le_floor: "real rnd \<le> m \<longleftrightarrow> int rnd \<le> \<lfloor>m\<rfloor>"
  by (simp add: le_floor_iff)

text \<open>
  A configuration that passes the checks on \<open>baseBet\<close>, \<open>bankroll\<close> and \<open>oddsType\<close> is
  accepted: the result is that of the loop.
\<close>

lemma calculate_accepts:
  assumes b: "baseBet cfg = Finite b" "0 < b"
    and k: "bankroll cfg = Finite k" "0 < k"
    and t: "oddsType cfg \<in> set [DECIMAL, AMERICAN, FRACTIONAL, IMPLIED]"
    and d: "convertToDecimal toStr (odds cfg) (oddsType cfg) = Finite r"
  shows "calculateMartingaleProgression toStr cfg =
     (case progressionLoop (Finite r) (maxRoundsOf cfg) (targetProfit cfg) (betMultiplierOf cfg)
             (maxTableLimit cfg) [] (Finite b) (Finite 0) (Finite 0) 1 (Finite k) of
        None \<Rightarrow> None
      | Some prog \<Rightarrow>
          Some (Inr \<lparr> progression = prog,
                      stats = calculateStatistics prog (Finite (1 / r)) (Finite (1 - 1 / r))
                                (Finite k) (Finite b) (Finite r) (maxRoundsOf cfg),
                      configOut = config.extend cfg
                        (config_out.fields (Finite r) (Finite (1 / r * 100))
                           (Finite ((1 - 1 / r) * 100))) \<rparr>))"
proof -
  from convertToDecimal_floor [of toStr "odds cfg" "oddsType cfg"] d
  have r: "101 / 100 \<le> r" by simp
  have ne: "oddsType cfg \<noteq> []"
    using t by (auto simp: DECIMAL_def AMERICAN_def FRACTIONAL_def IMPLIED_def)
  show ?thesis
    unfolding calculateMartingaleProgression_def Let_def d
    using b k t ne r winP_of_odds [OF r]
    by (simp add: js_ge_def js_sub_def split: option.split)
qed

section \<open>The odds normalizer is total\<close>

text \<open>
  Claim C1. For every value (a number or any text) and every odds type,
  \<open>convertToDecimal\<close> returns a finite number that is at least 1.01; it has no
  error result.
\<close>

theorem convertToDecimal_total:
  "\<exists>r. convertToDecimal toStr v t = Finite r \<and> 101 / 100 \<le> r"
  unfolding convertToDecimal_def Let_def by (rule odds_guard)

theorem convertToDecimal_total_witness:
  "convertToDecimal showNumber (JStr ''-200'') AMERICAN = Finite (3 / 2)
   \<and> convertToDecimal showNumber (JStr ''3/'') FRACTIONAL = Finite (101 / 100)
   \<and> convertToDecimal showNumber (JStr ''abc'') DECIMAL = Finite (101 / 100)
   \<and> convertToDecimal showNumber (JNum NaN) IMPLIED = Finite (101 / 100)"
  using convertToDecimal_total [of showNumber "JStr ''-200''" AMERICAN]
  by (simp add: odds_eval parse_eval showNumber_def)

section \<open>The standard scenario\<close>

text \<open>
  Claim C5. With \<open>baseBet = 10\<close>, \<open>bankroll = 1000\<close>, decimal odds that normalise to
  2.00, \<open>maxRounds = 10\<close> and \<open>betMultiplier = 2\<close> (no target, no table limit) the
  progression has the rounds 1 to 6 with the bets 10, 20, 40, 80, 160, 320, each the
  double of the one before (a seventh bet of 640 exceeds what is left of the
  bankroll), and \<open>netProfitIfWin\<close> is 10 on every round.
\<close>

theorem scenario1_progression:
  assumes "baseBet cfg = Finite 10" "bankroll cfg = Finite 1000"
    and "oddsType cfg = DECIMAL"
    and "convertToDecimal toStr (odds cfg) DECIMAL = Finite 2"
    and "maxRounds cfg = Some (Finite 10)" "betMultiplier cfg = Some (Finite 2)"
    and "targetProfit cfg = None" "maxTableLimit cfg = None"
  shows "\<exists>res. calculateMartingaleProgression toStr cfg = Some (Inr res)
     \<and> map round_no (progression res) = [1, 2, 3, 4, 5, 6]
     \<and> map betAmount (progression res) =
         [Finite 10, Finite 20, Finite 40, Finite 80, Finite 160, Finite 320]
     \<and> map netProfitIfWin (progression res) = replicate 6 (Finite 10)"
proof -
  have loop: "progressionLoop (Finite 2) (Finite 10) None (Finite 2) None
      [] (Finite 10) (Finite 0) (Finite 0) (Suc 0) (Finite 1000) =
    Some (map (\<lambda>i. emitRound (Finite 2) None (Finite (10 * 2 ^ i)) (Finite (10 * (2 ^ i - 1)))
                 (Finite (10 * (2 ^ i - 1))) (Suc i) (Finite (1000 - 10 * (2 ^ i - 1)))) [0..<6])"
    by (simp add: progressionLoop.simps loop_eval Let_def upt_rec numeral_eq_Suc)
  show ?thesis
    using calculate_accepts [of cfg 10 1000 toStr 2] assms
    by (simp add: loop loop_eval DECIMAL_def AMERICAN_def upt_rec numeral_eq_Suc)
qed

theorem scenario1_progression_witness:
  "\<exists>res. calculateMartingaleProgression showNumber standardCase = Some (Inr res)
     \<and> map round_no (progression res) = [1, 2, 3, 4, 5, 6]
     \<and> map betAmount (progression res) =
         [Finite 10, Finite 20, Finite 40, Finite 80, Finite 160, Finite 320]
     \<and> map netProfitIfWin (progression res) = replicate 6 (Finite 10)"
proof -
  have "convertToDecimal showNumber (JStr ''2.00'') DECIMAL = Finite 2"
    by (simp add: odds_eval parse_eval)
  then show ?thesis
    using scenario1_progression [of standardCase showNumber]
    by (simp add: standardCase_def)
qed

section \<open>The rejection of invalid odds cannot fire\<close>

text \<open>
  Claim C9. Whatever the odds value and the odds type, \<open>calculateMartingaleProgression\<close>
  never throws "Invalid odds - must be greater than 1.00": the normalised odds are never
  at most 1, and an accepted configuration carries decimal odds of at least 1.01 (malformed
  odds are repaired to 1.01, not rejected).
\<close>

theorem invalid_odds_unreachable:
  "calculateMartingaleProgression toStr cfg \<noteq>
     Some (Inl (Error ''Invalid odds - must be greater than 1.00''))
   \<and> \<not> js_le (convertToDecimal toStr (odds cfg) (oddsType cfg)) (Finite 1)
   \<and> (\<forall>res. calculateMartingaleProgression toStr cfg = Some (Inr res) \<longrightarrow>
        (\<exists>r. decimalOdds (configOut res) = Finite r \<and> 101 / 100 \<le> r))"
proof -
  obtain r where d: "convertToDecimal toStr (odds cfg) (oddsType cfg) = Finite r"
    and r: "101 / 100 \<le> r"
    using convertToDecimal_floor by blast
  show ?thesis
    using r by (auto simp: calculateMartingaleProgression_def Let_def d config.defs config_out.defs
        split: option.splits if_splits)
qed

theorem invalid_odds_unreachable_witness:
  "calculateMartingaleProgression showNumber (standardCase\<lparr> odds := JStr ''abc'' \<rparr>) \<noteq>
     Some (Inl (Error ''Invalid odds - must be greater than 1.00''))
   \<and> convertToDecimal showNumber (JStr ''abc'') DECIMAL = Finite (101 / 100)
   \<and> \<not> js_le (convertToDecimal showNumber (JStr ''abc'') DECIMAL) (Finite 1)"
  using invalid_odds_unreachable [of showNumber "standardCase\<lparr> odds := JStr ''abc'' \<rparr>"]
  by (simp add: standardCase_def odds_eval parse_eval)

section \<open>The simulator on an empty progression\<close>

lemma empty_progression:
  assumes "k < b"
  shows "progressionLoop d m target mu tlim [] (Finite b) tL w rnd (Finite k) = Some []"
  using assms by (subst progressionLoop.simps) (simp add: js_gt_def)

lemma unaffordable_accepted:
  assumes "baseBet cfg = Finite b" "bankroll cfg = Finite k" "0 < k" "k < b"
    and "oddsType cfg \<in> set [DECIMAL, AMERICAN, FRACTIONAL, IMPLIED]"
  shows "\<exists>res r. calculateMartingaleProgression toStr cfg = Some (Inr res) \<and> progression res = []
          \<and> decimalOdds (configOut res) = Finite r \<and> 101 / 100 \<le> r"
proof -
  obtain r where d: "convertToDecimal toStr (odds cfg) (oddsType cfg) = Finite r"
    and r: "101 / 100 \<le> r"
    using convertToDecimal_floor by blast
  from assms have b: "0 < b" by simp
  show ?thesis
    using calculate_accepts [OF assms(1) b assms(2,3,5) d] r
    by (simp add: empty_progression [OF assms(4)] config.defs config_out.defs)
qed

text \<open>
  Claim C10. A configuration whose first bet exceeds its bankroll (both positive and
  finite, the odds type recognised) is accepted by \<open>calculateMartingaleProgression\<close> with
  an empty progression, and \<open>simulateMartingaleSessions\<close> on it, for every trial count
  from 1 to 100000, every sequence of draws and every starting state, ends in the
  TypeError of \<open>simulateSingleSession\<close> (the read of \<open>lastRound.totalWagered\<close>).
\<close>

theorem empty_progression_TypeError:
  assumes "baseBet cfg = Finite b" "bankroll cfg = Finite k" "0 < k" "k < b"
    and "oddsType cfg \<in> set [DECIMAL, AMERICAN, FRACTIONAL, IMPLIED]"
    and "js_le (Finite 1) numSessions" "js_le numSessions (Finite 100000)"
  shows "(\<exists>res. calculateMartingaleProgression toStr cfg = Some (Inr res) \<and> progression res = [])
     \<and> simulateMartingaleSessions toStr rand cfg numSessions st = Some (Inl TypeError)"
proof -
  obtain res r where res: "calculateMartingaleProgression toStr cfg = Some (Inr res)"
    "progression res = []" "decimalOdds (configOut res) = Finite r" "101 / 100 \<le> r"
    using unaffordable_accepted [OF assms(1-5)] by blast
  obtain n where n: "numSessions = Finite n" "1 \<le> n" "n \<le> 100000"
    using assms(6,7) by (cases numSessions) auto
  have single: "simulateSingleSession toStr rand cfg winP s = Some (Inl TypeError)" for winP s
    by (simp add: simulateSingleSession_def res lastRoundOf_def Let_def)
  have loop: "sessionsLoop toStr rand cfg winP n 0 [] s = Some (Inl TypeError)" for winP s
    using n by (subst sessionsLoop.simps) (simp add: single)
  show ?thesis
    using res n winP_of_odds [OF res(4)]
    by (simp add: simulateMartingaleSessions_def Let_def js_gt_def loop)
qed

theorem empty_progression_TypeError_witness:
  "(\<exists>res. calculateMartingaleProgression showNumber unaffordableCase = Some (Inr res)
      \<and> progression res = [])
   \<and> simulateMartingaleSessions showNumber zeroDraws unaffordableCase (Finite 1000) freshState =
       Some (Inl TypeError)"
  using empty_progression_TypeError [of unaffordableCase 20 10 "Finite 1000" showNumber zeroDraws
      freshState]
  by (simp add: unaffordableCase_def)

section \<open>The trials and the round table\<close>

lemma accepted_odds:
  assumes "calculateMartingaleProgression toStr cfg = Some (Inr res)"
  shows "\<exists>r. decimalOdds (configOut res) = Finite r \<and> 101 / 100 \<le> r"
proof -
  obtain r where d: "convertToDecimal toStr (odds cfg) (oddsType cfg) = Finite r"
    and r: "101 / 100 \<le> r"
    using convertToDecimal_floor by blast
  show ?thesis
    using r assms by (auto simp: calculateMartingaleProgression_def Let_def d config.defs
        config_out.defs split: option.splits if_splits)
qed




lemma single_as_shared:
  assumes "calculateMartingaleProgression toStr cfg = Some (Inr res)"
  shows "simulateSingleSession toStr rand cfg winP st =
     (case spec_trialOnTable rand (progression res) winP (draws st) of
        Inl e \<Rightarrow> Some (Inl e)
      | Inr (r, d) \<Rightarrow> Some (Inr (r, \<lparr> draws = d, builds = Suc (builds st) \<rparr>)))"
  by (simp add: simulateSingleSession_def assms spec_trialOnTable_def Let_def
      split: prod.splits option.splits)

lemma sessionsLoop_as_shared:
  assumes "calculateMartingaleProgression toStr cfg = Some (Inr res)"
  shows "sessionsLoop toStr rand cfg winP x session acc st =
     (case spec_trials rand (progression res) winP (nat \<lceil>x\<rceil> - session) (draws st) of
        Inl e \<Rightarrow> Some (Inl e)
      | Inr (rs, d) \<Rightarrow>
          Some (Inr (acc @ rs, \<lparr> draws = d, builds = builds st + (nat \<lceil>x\<rceil> - session) \<rparr>)))"
proof (induction "nat \<lceil>x\<rceil> - session" arbitrary: session acc st)
  case 0
  then have "\<not> int session < \<lceil>x\<rceil>" by linarith
  then have "\<not> real session < x" by (simp add: less_ceiling_iff)
  with 0 show ?case
    by (subst sessionsLoop.simps) simp
next
  case (Suc k)
  then have "int session < \<lceil>x\<rceil>" by linarith
  then have lt: "real session < x" by (simp add: less_ceiling_iff)
  from Suc have k: "k = nat \<lceil>x\<rceil> - Suc session" by linarith
  show ?case
    apply (subst sessionsLoop.simps)
    apply (simp add: lt single_as_shared [OF assms] Suc.hyps(2) [symmetric]
        Suc.hyps(1) [OF k] k [symmetric] split: sum.splits prod.splits)
    done
qed

lemma simulate_as_shared:
  assumes calc: "calculateMartingaleProgression toStr cfg = Some (Inr res)"
    and x: "0 < x" "x \<le> 100000"
  shows "simulateMartingaleSessions toStr rand cfg (Finite x) st =
     (case spec_trials rand (progression res)
             (js_div (decimalToImpliedProbability (decimalOdds (configOut res))) (Finite 100))
             (nat \<lceil>x\<rceil>) (draws st) of
        Inl e \<Rightarrow> Some (Inl e)
      | Inr (rs, d) \<Rightarrow>
          Some (Inr (\<lparr> results = rs, summary = summarize (Finite x) rs \<rparr>,
                     \<lparr> draws = d, builds = builds st + nat \<lceil>x\<rceil> + 1 \<rparr>)))"
proof -
  obtain r where r: "decimalOdds (configOut res) = Finite r" "101 / 100 \<le> r"
    using accepted_odds [OF calc] by blast
  show ?thesis
    using x winP_of_odds [OF r(2)]
    by (simp add: simulateMartingaleSessions_def calc Let_def r(1) js_gt_def
        sessionsLoop_as_shared [OF calc] split: sum.splits prod.splits)
qed

lemma standardCase_run:
  "\<exists>res. calculateMartingaleProgression toStr standardCase = Some (Inr res)
     \<and> progression res = standardTable \<and> decimalOdds (configOut res) = Finite 2"
proof -
  have d: "convertToDecimal toStr (JStr ''2.00'') DECIMAL = Finite 2"
    by (simp add: odds_eval parse_eval)
  have loop: "progressionLoop (Finite 2) (Finite 10) None (Finite 2) None
      [] (Finite 10) (Finite 0) (Finite 0) (Suc 0) (Finite 1000) = Some standardTable"
    unfolding standardTable_def
    by (simp add: progressionLoop.simps loop_eval Let_def upt_rec numeral_eq_Suc)
  show ?thesis
    using calculate_accepts [of standardCase 10 1000 toStr 2] d
    by (simp add: standardCase_def loop maxRoundsOf_def betMultiplierOf_def config.defs
        config_out.defs)
qed


lemma win_first_round:
  "spec_trialOnTable zeroDraws standardTable (Finite (1 / 2)) d =
     Inr (\<lparr> won = True, roundsPlayed = 1, profit = Finite 10, sessionWagered = Finite 10 \<rparr>, Suc d)"
  by (simp add: spec_trialOnTable_def zeroDraws_def standardTable_def loop_eval Let_def upt_rec
      numeral_eq_Suc)

lemma lose_all_rounds:
  "spec_trialOnTable highDraws standardTable (Finite (1 / 2)) d =
     Inr (\<lparr> won = False, roundsPlayed = 6, profit = Finite (- 630), sessionWagered = Finite 630 \<rparr>,
          d + 6)"
  by (simp add: spec_trialOnTable_def highDraws_def standardTable_def lastRoundOf_def loop_eval
      Let_def upt_rec numeral_eq_Suc)






section \<open>The simulator fails on accepted input\<close>

text \<open>
  Claim C2 at two inputs. The configuration with \<open>baseBet = 20\<close> and \<open>bankroll = 10\<close> is
  accepted by \<open>calculateMartingaleProgression\<close> (with an empty progression), and
  \<open>simulateMartingaleSessions\<close> with one trial throws a TypeError on it. The trial count
  0.5, outside \<open>[1, 100000]\<close>, is not rejected: one trial is run and a win rate of 200
  is reported.
\<close>

theorem simulate_fails_on_accepted_input:
  "map_option (map_sum id progression) (calculateMartingaleProgression showNumber unaffordableCase) =
     Some (Inr [])
   \<and> simulateMartingaleSessions showNumber zeroDraws unaffordableCase (Finite 1) freshState =
       Some (Inl TypeError)
   \<and> simulateMartingaleSessions showNumber zeroDraws standardCase (Finite (1 / 2)) freshState =
       Some (Inr (\<lparr> results =
                      [\<lparr> won = True, roundsPlayed = 1, profit = Finite 10,
                         sessionWagered = Finite 10 \<rparr>],
                    summary =
                      \<lparr> totalSessions = Finite (1 / 2), wins = 1, losses = 0, winRate = Finite 200,
                        meanProfit = Finite 20, maxProfit = Finite 10, maxLoss = Finite 10,
                        profitableSessions = 1 \<rparr> \<rparr>,
                  \<lparr> draws = 1, builds = 2 \<rparr>))"
proof -
  obtain res0 where res0: "calculateMartingaleProgression showNumber unaffordableCase = Some (Inr res0)"
    "progression res0 = []"
    using unaffordable_accepted [of unaffordableCase 20 10 showNumber]
    by (auto simp: unaffordableCase_def)
  have w0: "js_div (decimalToImpliedProbability (decimalOdds (configOut res0))) (Finite 100) = Finite (1 / r)"
    if "decimalOdds (configOut res0) = Finite r" "101 / 100 \<le> r" for r
    using that winP_of_odds(1) by simp
  have first: "map_option (map_sum id progression)
      (calculateMartingaleProgression showNumber unaffordableCase) = Some (Inr [])"
    by (simp add: res0)
  have second: "simulateMartingaleSessions showNumber zeroDraws unaffordableCase (Finite 1) freshState =
       Some (Inl TypeError)"
    using simulate_as_shared [of showNumber unaffordableCase res0 1 zeroDraws freshState, OF res0(1)]
    by (simp add: res0(2) spec_trialOnTable_def lastRoundOf_def)
  obtain res where res: "calculateMartingaleProgression showNumber standardCase = Some (Inr res)"
    "progression res = standardTable" "decimalOdds (configOut res) = Finite 2"
    using standardCase_run by blast
  have w: "js_div (decimalToImpliedProbability (Finite 2)) (Finite 100) = Finite (1 / 2)"
    by (simp add: decimalToImpliedProbability_def)
  have "\<lceil>1 / 2 :: real\<rceil> = 1" by (rule ceiling_unique) simp_all
  then have half: "nat \<lceil>1 / 2 :: real\<rceil> = Suc 0" by simp
  have third: "simulateMartingaleSessions showNumber zeroDraws standardCase (Finite (1 / 2)) freshState =
       Some (Inr (\<lparr> results =
                      [\<lparr> won = True, roundsPlayed = 1, profit = Finite 10,
                         sessionWagered = Finite 10 \<rparr>],
                    summary =
                      \<lparr> totalSessions = Finite (1 / 2), wins = 1, losses = 0, winRate = Finite 200,
                        meanProfit = Finite 20, maxProfit = Finite 10, maxLoss = Finite 10,
                        profitableSessions = 1 \<rparr> \<rparr>,
                  \<lparr> draws = 1, builds = 2 \<rparr>))"
    using simulate_as_shared [of showNumber standardCase res "1 / 2" zeroDraws freshState, OF res(1)]
    unfolding res(2,3) w half
    by (simp add: win_first_round freshState_def summarize_def Math_max_def Math_min_def js_gt_def)
  show ?thesis using first second third by blast
qed

theorem simulate_fails_on_accepted_input_witness:
  "\<exists>e. simulateMartingaleSessions showNumber zeroDraws unaffordableCase (Finite 1) freshState =
     Some (Inl e)"
  using simulate_fails_on_accepted_input by blast

section \<open>Round trips through the decimal odds\<close>

lemmas print_eval = formatOdds_def toFixed_def printFixed_def decimalToFractional_def
  char_of_eq_iff showNumber_def js_rem_def

lemma gcd_js_eq_gcd: "0 \<le> a \<Longrightarrow> 0 \<le> b \<Longrightarrow> gcd_js a b = gcd a b"
proof (induction a b rule: gcd_js.induct)
  case (1 a b)
  show ?case
  proof (cases "b = 0")
    case True
    with 1 show ?thesis by (subst gcd_js.simps) simp
  next
    case False
    with 1 have rem: "js_rem a b = a mod b"
      by (cases "a = 0") (simp_all add: js_rem_def)
    from 1 False have IH: "gcd_js b (a mod b) = gcd b (a mod b)"
      using rem by simp
    have "gcd_js a b = gcd_js b (js_rem a b)"
      using False by (subst gcd_js.simps) simp
    also have "\<dots> = gcd b (a mod b)" by (simp only: rem IH)
    also have "\<dots> = gcd a b" by (rule gcd_red_int [symmetric])
    finally show ?thesis .
  qed
qed

lemma round_close:
  assumes "0 \<le> y"
  shows "\<bar>real (nat \<lfloor>y + 1 / 2\<rfloor>) - y\<bar> \<le> 1 / 2"
proof -
  have "0 \<le> \<lfloor>y + 1 / 2\<rfloor>" using assms by simp
  then have "real (nat \<lfloor>y + 1 / 2\<rfloor>) = of_int \<lfloor>y + 1 / 2\<rfloor>" by simp
  then show ?thesis by linarith
qed

lemma roundtrip_decimal:
  assumes "parseFloat toStr v = Finite x" "101 / 100 \<le> x"
  shows "convertToDecimal toStr v DECIMAL = Finite x"
  using assms by (simp add: convertToDecimal_def)

lemma roundtrip_implied:
  assumes "parseFloat toStr v = Finite p" "0 < p" "p \<le> 10000 / 101"
  shows "decimalToImpliedProbability (convertToDecimal toStr v IMPLIED) = Finite p"
proof -
  from assms have "101 / 100 \<le> 100 / p" by (simp add: field_simps)
  moreover from assms have "p < 100" by simp
  ultimately show ?thesis
    using assms
    by (simp add: convertToDecimal_def DECIMAL_def AMERICAN_def FRACTIONAL_def IMPLIED_def
        impliedProbabilityToDecimal_def decimalToImpliedProbability_def js_ge_def)
qed

lemma roundtrip_american_pos:
  assumes "parseInt toStr v = Finite (of_int n)" "100 \<le> n"
  shows "decimalToAmerican (convertToDecimal toStr v AMERICAN) = Finite (of_int n)"
proof -
  from assms(2) have "(2 :: real) \<le> of_int n / 100 + 1" by simp
  then show ?thesis
    using assms
    by (simp add: convertToDecimal_def DECIMAL_def AMERICAN_def americanToDecimal_def
        decimalToAmerican_def js_gt_def js_ge_def js_sub_def Math_max_def)
qed

lemma roundtrip_american_neg:
  assumes "parseInt toStr v = Finite (of_int n)" "- 10000 \<le> n" "n \<le> - 101"
  shows "decimalToAmerican (convertToDecimal toStr v AMERICAN) = Finite (of_int n)"
proof -
  define m :: real where "m = - of_int n"
  from assms have m: "101 \<le> m" "m \<le> 10000" by (simp_all add: m_def)
  then have d: "101 / 100 \<le> 100 / m + 1" "100 / m + 1 < 2" by (simp_all add: field_simps)
  have abs: "\<bar>of_int n :: real\<bar> = m" using m by (simp add: m_def)
  have neg: "(of_int n :: real) < 0" using m by (simp add: m_def)
  have nz: "m \<noteq> 0" using m by simp
  have conv: "convertToDecimal toStr v AMERICAN = Finite (100 / m + 1)"
    using assms(1) neg m d
    by (simp add: convertToDecimal_def DECIMAL_def AMERICAN_def americanToDecimal_def
        js_gt_def Math_max_def abs Let_def)
  have "\<lfloor>- 100 / (100 / m) + 1 / 2\<rfloor> = n"
  proof -
    have "- 100 / (100 / m) = of_int n" using m by (simp add: m_def)
    then show ?thesis by simp
  qed
  then show ?thesis
    using d nz by (simp add: conv decimalToAmerican_def js_ge_def js_sub_def)
qed

lemma roundtrip_american_even:
  assumes "parseInt toStr v = Finite (- 100)"
  shows "decimalToAmerican (convertToDecimal toStr v AMERICAN) = Finite 100"
  using assms
  by (simp add: convertToDecimal_def DECIMAL_def AMERICAN_def americanToDecimal_def
      decimalToAmerican_def js_gt_def js_ge_def js_sub_def Math_max_def)

lemma roundtrip_fractional:
  assumes "map Number_string (split (CHR ''/'') s) = [Finite (real a), Finite (real b)]"
    and "0 < a" "0 < b" "b \<le> 100 * a"
  shows "convertToDecimal toStr (JStr s) FRACTIONAL = Finite (real a / real b + 1)"
proof -
  from assms have "1 / 100 \<le> real a / real b"
    by (simp add: field_simps)
  then have "101 / 100 \<le> real a / real b + 1" by simp
  then show ?thesis
    using assms
    by (simp add: convertToDecimal_def DECIMAL_def AMERICAN_def FRACTIONAL_def
        fractionalToDecimal_def fractionalToDecimal_body_def js_eq_def)
qed

lemma decimalToFractional_value:
  assumes "0 \<le> y"
  shows "decimalToFractional toStr (Finite (y + 1)) =
     (let N = \<lfloor>y * 100 + 1 / 2\<rfloor>; g = gcd N 100
      in Inr (toStr (Finite (of_int (N div g))) @ ''/'' @ toStr (Finite (of_int (100 div g)))))"
proof -
  define N where "N = \<lfloor>y * 100 + 1 / 2\<rfloor>"
  have N: "0 \<le> N" using assms by (simp add: N_def)
  define g where "g = gcd N 100"
  have g: "g \<noteq> 0" "g dvd N" "g dvd 100" by (simp_all add: g_def)
  have gj: "gcd_js N 100 = g" using N by (simp add: gcd_js_eq_gcd g_def)
  have q1: "(of_int N :: real) / of_int g = of_int (N div g)"
    using g by (simp add: real_of_int_div)
  have q2: "(100 :: real) / of_int g = of_int (100 div g)"
    using g real_of_int_div [of g 100] by simp
  show ?thesis
    using g(1) q1 q2
    by (simp add: decimalToFractional_def js_sub_def Let_def N_def [symmetric] gj g_def [symmetric])
qed

lemma digitOf_digit: "d < 10 \<Longrightarrow> digitOf 10 (char_of (48 + d)) = Some d"
  by (simp add: digitOf_def Let_def)

lemma digitsValue_snoc:
  "digitsValue r (xs @ [c]) = digitsValue r xs * r + the (digitOf r c)"
  by (simp add: digitsValue_def)

lemma digitsValue_append:
  "digitsValue 10 (xs @ ys) = digitsValue 10 xs * 10 ^ length ys + digitsValue 10 ys"
proof (induction ys rule: rev_induct)
  case Nil
  show ?case by (simp add: digitsValue_def)
next
  case (snoc y ys)
  have "digitsValue 10 (xs @ ys @ [y]) = digitsValue 10 ((xs @ ys) @ [y])" by simp
  also have "\<dots> = digitsValue 10 (xs @ ys) * 10 + the (digitOf 10 y)"
    by (rule digitsValue_snoc)
  finally show ?case
    by (simp add: snoc.IH digitsValue_snoc algebra_simps)
qed

lemma showNat_digits:
  "showNat n \<noteq> [] \<and> list_all (isDigit 10) (showNat n) \<and> digitsValue 10 (showNat n) = n"
proof (induction n rule: showNat.induct)
  case (1 n)
  show ?case
  proof (cases "n < 10")
    case True
    then show ?thesis
      by (subst (1 2 3) showNat.simps) (simp add: isDigit_def digitOf_digit digitsValue_def)
  next
    case False
    have d: "digitOf 10 (char_of (48 + n mod 10)) = Some (n mod 10)"
      by (rule digitOf_digit) simp
    from False 1 have IH: "list_all (isDigit 10) (showNat (n div 10))"
      "digitsValue 10 (showNat (n div 10)) = n div 10" by simp_all
    from False IH d show ?thesis
      by (subst (1 2 3) showNat.simps) (simp add: isDigit_def digitsValue_snoc)
  qed
qed

lemma zeros_value: "digitsValue 10 (replicate k (CHR ''0'') @ xs) = digitsValue 10 xs"
proof -
  have z: "the (digitOf 10 (CHR ''0'')) = 0" by (simp add: digitOf_def)
  have "digitsValue 10 (replicate k (CHR ''0'')) = 0"
  proof (induction k)
    case 0
    show ?case by (simp add: digitsValue_def)
  next
    case (Suc k)
    have "replicate (Suc k) (CHR ''0'') = replicate k (CHR ''0'') @ [CHR ''0'']"
      by (simp add: replicate_append_same)
    then show ?case by (simp only: digitsValue_snoc Suc z)
  qed
  then show ?thesis by (simp add: digitsValue_append)
qed

lemma zero_digit: "isDigit 10 (CHR ''0'')"
  by (simp add: isDigit_def digitOf_def)

lemma scan_fixed:
  assumes "ip \<noteq> []" "list_all (isDigit 10) ip" "list_all (isDigit 10) fp"
    and "rest = [] \<or> rest = ''%''"
  shows "scanUnsigned (ip @ CHR ''.'' # fp @ rest) =
     Some (Finite (real (digitsValue 10 ip) + real (digitsValue 10 fp) / 10 ^ length fp), rest)"
proof -
  obtain c cs where ip: "ip = c # cs" using assms(1) by (cases ip) auto
  with assms(2) have c: "isDigit 10 c" by simp
  have notI: "\<not> isDigit 10 (CHR ''I'')" by (simp add: isDigit_def digitOf_def)
  from c notI have "c \<noteq> CHR ''I''" by auto
  then have inf: "take 8 (ip @ CHR ''.'' # fp @ rest) \<noteq> ''Infinity''" by (simp add: ip)
  have dot: "\<not> isDigit 10 (CHR ''.'')" by (simp add: isDigit_def digitOf_def)
  have pct: "\<not> isDigit 10 (CHR ''%'')" by (simp add: isDigit_def digitOf_def)
  have tw: "takeWhile (isDigit 10) (ip @ CHR ''.'' # fp @ rest) = ip"
    using assms(2) dot by (simp add: takeWhile_append2 list_all_iff)
  have dw: "dropWhile (isDigit 10) (ip @ CHR ''.'' # fp @ rest) = CHR ''.'' # fp @ rest"
    using assms(2) dot by (simp add: dropWhile_append2 list_all_iff)
  have tw2: "takeWhile (isDigit 10) (fp @ rest) = fp"
    using assms(3,4) pct by (auto simp add: list_all_iff takeWhile_append2)
  have dw2: "dropWhile (isDigit 10) (fp @ rest) = rest"
    using assms(3,4) pct by (auto simp add: list_all_iff dropWhile_append2)
  have ex: "scanExponent rest = (0, rest)"
    using assms(4) by (auto simp add: scanExponent_def)
  show ?thesis
    unfolding scanUnsigned_def Let_def tw dw
    using inf assms(1) by (simp add: tw2 dw2 ex scale10_def)
qed

text \<open>The text that \<open>toFixed\<close> prints for \<open>n\<close> with \<open>f\<close> decimals reads back as \<open>n / 10^f\<close>.\<close>

lemma printFixed_parse:
  assumes "0 < f" "rest = [] \<or> rest = ''%''"
  shows "parseFloat_string (printFixed n f @ rest) = Finite (real n / 10 ^ f)"
proof -
  define z where "z = replicate (Suc f - length (showNat n)) (CHR ''0'') @ showNat n"
  define ip where "ip = take (length z - f) z"
  define fp where "fp = drop (length z - f) z"
  have zd: "list_all (isDigit 10) z"
    using showNat_digits [of n] zero_digit by (auto simp add: z_def list_all_iff)
  have zl: "f < length z" by (simp add: z_def)
  have zv: "digitsValue 10 z = n" using showNat_digits [of n] by (simp add: z_def zeros_value)
  have split: "z = ip @ fp" by (simp add: ip_def fp_def)
  have zne: "z \<noteq> []" using zl by auto
  have ipne: "ip \<noteq> []" using zl zne by (simp add: ip_def)
  have fl: "length fp = f" using zl by (simp add: fp_def)
  have ipd: "list_all (isDigit 10) ip" and fpd: "list_all (isDigit 10) fp"
    using zd unfolding split by simp_all
  have "n = digitsValue 10 ip * 10 ^ f + digitsValue 10 fp"
    using zv unfolding split digitsValue_append fl by simp
  then have "real n = real (digitsValue 10 ip * 10 ^ f + digitsValue 10 fp)" by simp
  then have val: "real n = real (digitsValue 10 ip) * 10 ^ f + real (digitsValue 10 fp)"
    by simp
  obtain c cs where ipc: "ip = c # cs" using ipne by (cases ip) auto
  with ipd have c: "isDigit 10 c" by simp
  have "\<not> isDigit 10 (CHR ''-'')" "\<not> isDigit 10 (CHR ''+'')" "\<not> isDigit 10 (CHR 0x20)"
    "\<not> isDigit 10 (CHR 0x09)" "\<not> isDigit 10 (CHR 0x0A)" "\<not> isDigit 10 (CHR 0x0B)"
    "\<not> isDigit 10 (CHR 0x0C)" "\<not> isDigit 10 (CHR 0x0D)"
    by (simp_all add: isDigit_def digitOf_def)
  with c have cne: "c \<noteq> CHR ''-''" "c \<noteq> CHR ''+''" "\<not> isWhiteSpace c"
    by (auto simp: isWhiteSpace_def)
  have pf: "printFixed n f = ip @ CHR ''.'' # fp"
    unfolding printFixed_def Let_def z_def [symmetric]
    using assms(1) by (simp add: ip_def fp_def)
  have "parseFloat_string (ip @ CHR ''.'' # fp @ rest) =
      Finite (real (digitsValue 10 ip) + real (digitsValue 10 fp) / 10 ^ length fp)"
    using cne scan_fixed [OF ipne ipd fpd assms(2)]
    by (simp add: parseFloat_string_def trimStart_def ipc)
  then show ?thesis
    unfolding pf fl val by (simp add: field_simps)
qed

lemma round_close_scaled:
  assumes "0 \<le> y" "0 < c"
  shows "\<bar>real (nat \<lfloor>y * c + 1 / 2\<rfloor>) / c - y\<bar> \<le> 1 / (2 * c)"
proof -
  define n where "n = real (nat \<lfloor>y * c + 1 / 2\<rfloor>)"
  have h: "\<bar>n - y * c\<bar> \<le> 1 / 2"
    unfolding n_def using round_close [of "y * c"] assms by simp
  have "n / c - y = (n - y * c) / c" using assms(2) by (simp add: field_simps)
  then have "\<bar>n / c - y\<bar> = \<bar>n - y * c\<bar> / c" using assms(2) by (simp add: abs_divide)
  also have "\<dots> \<le> (1 / 2) / c"
    by (rule divide_right_mono) (use h assms(2) in simp_all)
  also have "\<dots> = 1 / (2 * c)" by simp
  finally show ?thesis by (simp only: n_def)
qed

lemma gcd_150_100: "gcd (150 :: int) 100 = 50"
  by (simp add: gcd_non_0_int)

text \<open>
  Claim C8, as amended. \<open>formatOdds\<close> after \<open>convertToDecimal\<close> gives back the value that
  was put in, up to the rounding of the display, on these domains: a decimal \<open>x >= 1.01\<close>
  comes back rounded to two decimals (within 0.005; printed by \<open>toString\<close> from \<open>10^21\<close>
  on); an American integer \<open>n >= 100\<close> or \<open>-10000 <= n <= -101\<close> comes back as \<open>n\<close> itself,
  with \<open>+\<close> when positive, and \<open>-100\<close> comes back as \<open>+100\<close>; a fraction \<open>a/b\<close> of positive
  integers with \<open>a/b >= 0.01\<close> comes back as a fraction within 0.005 of it (a numerator
  over 100, in lowest terms); an implied probability \<open>0 < p <= 100/1.01\<close> comes back
  rounded to one decimal (within 0.05). The input is given by what \<open>parseFloat\<close>,
  \<open>parseInt\<close> or \<open>Number\<close> read from it, and the text \<open>toFixed\<close> prints is read back by
  \<open>parseFloat\<close>.
\<close>

theorem roundtrip_within_range:
  "(parseFloat toStr v = Finite x \<and> 101 / 100 \<le> x \<and> x < 10 ^ 21 \<longrightarrow>
      formatOdds toStr (convertToDecimal toStr v DECIMAL) DECIMAL =
        Inr (printFixed (nat \<lfloor>x * 100 + 1 / 2\<rfloor>) 2)
      \<and> parseFloat_string (printFixed (nat \<lfloor>x * 100 + 1 / 2\<rfloor>) 2) =
          Finite (real (nat \<lfloor>x * 100 + 1 / 2\<rfloor>) / 100)
      \<and> \<bar>real (nat \<lfloor>x * 100 + 1 / 2\<rfloor>) / 100 - x\<bar> \<le> 1 / 200)
   \<and> (parseFloat toStr v = Finite x \<and> 10 ^ 21 \<le> x \<longrightarrow>
      formatOdds toStr (convertToDecimal toStr v DECIMAL) DECIMAL = Inr (toStr (Finite x)))
   \<and> (parseInt toStr v = Finite (of_int n) \<and> (100 \<le> n \<or> - 10000 \<le> n \<and> n \<le> - 101) \<longrightarrow>
      formatOdds toStr (convertToDecimal toStr v AMERICAN) AMERICAN =
        Inr ((if 0 < n then ''+'' else []) @ toStr (Finite (of_int n))))
   \<and> (parseInt toStr v = Finite (- 100) \<longrightarrow>
      formatOdds toStr (convertToDecimal toStr v AMERICAN) AMERICAN =
        Inr (''+'' @ toStr (Finite 100)))
   \<and> (map Number_string (split (CHR ''/'') s) = [Finite (real a), Finite (real b)]
        \<and> 0 < a \<and> 0 < b \<and> b \<le> 100 * a \<longrightarrow>
      (let N = \<lfloor>real a / real b * 100 + 1 / 2\<rfloor>; g = gcd N 100
       in formatOdds toStr (convertToDecimal toStr (JStr s) FRACTIONAL) FRACTIONAL =
            Inr (toStr (Finite (of_int (N div g))) @ ''/'' @ toStr (Finite (of_int (100 div g))))
          \<and> \<bar>of_int (N div g) / of_int (100 div g) - real a / real b\<bar> \<le> 1 / 200))
   \<and> (parseFloat toStr v = Finite p \<and> 0 < p \<and> p \<le> 10000 / 101 \<longrightarrow>
      formatOdds toStr (convertToDecimal toStr v IMPLIED) IMPLIED =
        Inr (printFixed (nat \<lfloor>p * 10 + 1 / 2\<rfloor>) 1 @ ''%'')
      \<and> parseFloat_string (printFixed (nat \<lfloor>p * 10 + 1 / 2\<rfloor>) 1 @ ''%'') =
          Finite (real (nat \<lfloor>p * 10 + 1 / 2\<rfloor>) / 10)
      \<and> \<bar>real (nat \<lfloor>p * 10 + 1 / 2\<rfloor>) / 10 - p\<bar> \<le> 1 / 20)"
proof (intro conjI impI; (elim conjE)?)
  assume a: "parseFloat toStr v = Finite x" "101 / 100 \<le> x" "x < 10 ^ 21"
  then show "formatOdds toStr (convertToDecimal toStr v DECIMAL) DECIMAL =
        Inr (printFixed (nat \<lfloor>x * 100 + 1 / 2\<rfloor>) 2)"
    by (simp add: roundtrip_decimal formatOdds_def toFixed_def)
  from a round_close_scaled [of x 100]
  show "\<bar>real (nat \<lfloor>x * 100 + 1 / 2\<rfloor>) / 100 - x\<bar> \<le> 1 / 200" by simp
  show "parseFloat_string (printFixed (nat \<lfloor>x * 100 + 1 / 2\<rfloor>) 2) =
          Finite (real (nat \<lfloor>x * 100 + 1 / 2\<rfloor>) / 100)"
    using printFixed_parse [of 2 "[]" "nat \<lfloor>x * 100 + 1 / 2\<rfloor>"] by simp
next
  assume a: "parseFloat toStr v = Finite x" "10 ^ 21 \<le> x"
  then have "101 / 100 \<le> x" by simp
  with a show "formatOdds toStr (convertToDecimal toStr v DECIMAL) DECIMAL = Inr (toStr (Finite x))"
    by (simp add: roundtrip_decimal formatOdds_def toFixed_def)
next
  assume a: "parseInt toStr v = Finite (of_int n)" "100 \<le> n \<or> - 10000 \<le> n \<and> n \<le> - 101"
  then have "decimalToAmerican (convertToDecimal toStr v AMERICAN) = Finite (of_int n)"
    using roundtrip_american_pos roundtrip_american_neg by blast
  with a(2) show "formatOdds toStr (convertToDecimal toStr v AMERICAN) AMERICAN =
        Inr ((if 0 < n then ''+'' else []) @ toStr (Finite (of_int n)))"
    by (auto simp add: formatOdds_def DECIMAL_def AMERICAN_def js_gt_def)
next
  assume "parseInt toStr v = Finite (- 100)"
  then have "decimalToAmerican (convertToDecimal toStr v AMERICAN) = Finite 100"
    by (rule roundtrip_american_even)
  then show "formatOdds toStr (convertToDecimal toStr v AMERICAN) AMERICAN =
        Inr (''+'' @ toStr (Finite 100))"
    by (simp add: formatOdds_def DECIMAL_def AMERICAN_def js_gt_def)
next
  assume a: "map Number_string (split (CHR ''/'') s) = [Finite (real a), Finite (real b)]"
    "0 < a" "0 < b" "b \<le> 100 * a"
  define y where "y = real a / real b"
  have y: "0 \<le> y" by (simp add: y_def)
  define N where "N = \<lfloor>y * 100 + 1 / 2\<rfloor>"
  define g where "g = gcd N 100"
  have g: "g \<noteq> 0" "g dvd N" "g dvd 100" by (simp_all add: g_def)
  have N: "0 \<le> N" using y by (simp add: N_def)
  have fmt: "formatOdds toStr (convertToDecimal toStr (JStr s) FRACTIONAL) FRACTIONAL =
            Inr (toStr (Finite (of_int (N div g))) @ ''/'' @ toStr (Finite (of_int (100 div g))))"
    unfolding roundtrip_fractional [OF a] y_def [symmetric]
    using decimalToFractional_value [OF y, of toStr]
    by (simp add: formatOdds_def DECIMAL_def AMERICAN_def FRACTIONAL_def Let_def N_def g_def)
  have frac: "(of_int (N div g) :: real) / of_int (100 div g) = of_int N / 100"
  proof -
    have "(of_int (N div g) :: real) = of_int N / of_int g"
      using g by (simp add: real_of_int_div)
    moreover have "(of_int (100 div g) :: real) = 100 / of_int g"
      using g real_of_int_div [of g 100] by simp
    ultimately show ?thesis using g(1) by simp
  qed
  have "\<bar>(of_int N :: real) - y * 100\<bar> \<le> 1 / 2"
    unfolding N_def by linarith
  then have close: "\<bar>of_int (N div g) / of_int (100 div g) - y\<bar> \<le> 1 / 200"
    unfolding frac by linarith
  from fmt close
  show "let N = \<lfloor>real a / real b * 100 + 1 / 2\<rfloor>; g = gcd N 100
       in formatOdds toStr (convertToDecimal toStr (JStr s) FRACTIONAL) FRACTIONAL =
            Inr (toStr (Finite (of_int (N div g))) @ ''/'' @ toStr (Finite (of_int (100 div g))))
          \<and> \<bar>of_int (N div g) / of_int (100 div g) - real a / real b\<bar> \<le> 1 / 200"
    by (simp add: Let_def N_def g_def y_def)
next
  assume a: "parseFloat toStr v = Finite p" "0 < p" "p \<le> 10000 / 101"
  then have small: "p < 10 ^ 21" by simp
  note ip = roundtrip_implied [OF a, unfolded IMPLIED_def]
  from a small show "formatOdds toStr (convertToDecimal toStr v IMPLIED) IMPLIED =
        Inr (printFixed (nat \<lfloor>p * 10 + 1 / 2\<rfloor>) 1 @ ''%'')"
    by (simp add: formatOdds_def toFixed_def DECIMAL_def AMERICAN_def
        FRACTIONAL_def IMPLIED_def ip)
  from a round_close_scaled [of p 10]
  show "\<bar>real (nat \<lfloor>p * 10 + 1 / 2\<rfloor>) / 10 - p\<bar> \<le> 1 / 20" by simp
  show "parseFloat_string (printFixed (nat \<lfloor>p * 10 + 1 / 2\<rfloor>) 1 @ ''%'') =
          Finite (real (nat \<lfloor>p * 10 + 1 / 2\<rfloor>) / 10)"
    using printFixed_parse [of 1 "''%''" "nat \<lfloor>p * 10 + 1 / 2\<rfloor>"] by simp
qed

theorem roundtrip_within_range_witness:
  "formatOdds showNumber (convertToDecimal showNumber (JStr ''2.504'') DECIMAL) DECIMAL = Inr ''2.50''
   \<and> formatOdds showNumber (convertToDecimal showNumber (JStr ''+150'') AMERICAN) AMERICAN = Inr ''+150''
   \<and> formatOdds showNumber (convertToDecimal showNumber (JStr ''-200'') AMERICAN) AMERICAN = Inr ''-200''
   \<and> formatOdds showNumber (convertToDecimal showNumber (JStr ''3/2'') FRACTIONAL) FRACTIONAL = Inr ''3/2''
   \<and> formatOdds showNumber (convertToDecimal showNumber (JStr ''37.46'') IMPLIED) IMPLIED = Inr ''37.5%''"
proof -
  have p1: "parseFloat showNumber (JStr ''2.504'') = Finite (2504 / 1000)"
    and p2: "parseInt showNumber (JStr ''+150'') = Finite (of_int 150)"
    and p3: "parseInt showNumber (JStr ''-200'') = Finite (of_int (- 200))"
    and p4: "map Number_string (split (CHR ''/'') ''3/2'') = [Finite (real 3), Finite (real 2)]"
    and p5: "parseFloat showNumber (JStr ''37.46'') = Finite (3746 / 100)"
    by (simp_all add: parse_eval)
  note t = roundtrip_within_range [where toStr = showNumber]
  have "formatOdds showNumber (convertToDecimal showNumber (JStr ''2.504'') DECIMAL) DECIMAL = Inr ''2.50''"
    using t [of "JStr ''2.504''" "2504 / 1000", THEN conjunct1] p1
    by (simp add: printFixed_def showNat.simps char_of_eq_iff)
  moreover have "formatOdds showNumber (convertToDecimal showNumber (JStr ''+150'') AMERICAN) AMERICAN = Inr ''+150''"
    using t [of "JStr ''+150''" _ 150, THEN conjunct2, THEN conjunct2, THEN conjunct1] p2
    by (simp add: showNumber_def showNat.simps char_of_eq_iff)
  moreover have "formatOdds showNumber (convertToDecimal showNumber (JStr ''-200'') AMERICAN) AMERICAN = Inr ''-200''"
    using t [of "JStr ''-200''" _ "- 200", THEN conjunct2, THEN conjunct2, THEN conjunct1] p3
    by (simp add: showNumber_def showNat.simps char_of_eq_iff)
  moreover have "formatOdds showNumber (convertToDecimal showNumber (JStr ''3/2'') FRACTIONAL) FRACTIONAL = Inr ''3/2''"
    using t [of _ _ _ "''3/2''" 3 2, THEN conjunct2, THEN conjunct2, THEN conjunct2, THEN conjunct2,
        THEN conjunct1] p4
    by (simp add: Let_def gcd_150_100 showNumber_def showNat.simps char_of_eq_iff)
  moreover have "formatOdds showNumber (convertToDecimal showNumber (JStr ''37.46'') IMPLIED) IMPLIED = Inr ''37.5%''"
    using t [of "JStr ''37.46''" _ _ _ _ _ "3746 / 100", THEN conjunct2, THEN conjunct2, THEN conjunct2,
        THEN conjunct2, THEN conjunct2] p5
    by (simp add: printFixed_def showNat.simps char_of_eq_iff)
  ultimately show ?thesis by blast
qed

text \<open>
  Outside these domains the conversion saturates at the floor 1.01 and the round
  trip does not give the input back: \<open>-20000\<close> comes back as \<open>-10000\<close>, \<open>1/1000\<close> as \<open>1/100\<close>
  and \<open>99.9\<close> per cent as \<open>99.0%\<close>; and \<open>-100\<close> comes back as \<open>+100\<close>.
\<close>

theorem roundtrip_saturates:
  "formatOdds showNumber (convertToDecimal showNumber (JStr ''-100'') AMERICAN) AMERICAN =
     Inr ''+100''
   \<and> formatOdds showNumber (convertToDecimal showNumber (JStr ''-20000'') AMERICAN) AMERICAN =
     Inr ''-10000''
   \<and> formatOdds showNumber (convertToDecimal showNumber (JStr ''1/1000'') FRACTIONAL) FRACTIONAL =
     Inr ''1/100''
   \<and> formatOdds showNumber (convertToDecimal showNumber (JStr ''99.9'') IMPLIED) IMPLIED =
     Inr ''99.0%''"
  by (simp add: odds_eval parse_eval print_eval showNat.simps gcd_js.simps)

section \<open>Rounding to the nearest double\<close>

lemma powi2_pos [simp]: "(0 :: real) < 2 powi k"
  by (simp add: zero_less_power_int)

lemma powi2_nonneg [simp]: "(0 :: real) \<le> 2 powi k"
  using powi2_pos [of k] by (rule less_imp_le)

lemma powi2_Suc: "(2 :: real) powi (k + 1) = 2 * 2 powi k"
  by (simp add: power_int_add_1')

lemma expoUp_bounds: "1 \<le> x \<Longrightarrow> 2 powi (expoUp x) \<le> x \<and> x < 2 powi (expoUp x + 1)"
proof (induction x rule: expoUp.induct)
  case (1 x)
  show ?case
  proof (cases "2 \<le> x")
    case True
    then have "1 \<le> x / 2" by simp
    from 1(1) [OF True this] have "2 powi expoUp (x / 2) \<le> x / 2" "x / 2 < 2 powi (expoUp (x / 2) + 1)"
      by simp_all
    then have "2 * 2 powi expoUp (x / 2) \<le> x" "x < 2 * 2 powi (expoUp (x / 2) + 1)" by simp_all
    then have "2 powi (expoUp (x / 2) + 1) \<le> x" "x < 2 powi (expoUp (x / 2) + 1 + 1)"
      by (simp_all only: powi2_Suc)
    moreover have "expoUp x = expoUp (x / 2) + 1"
      using True by (subst expoUp.simps) simp
    ultimately show ?thesis by simp
  next
    case False
    with 1(2) show ?thesis by (subst (1 2) expoUp.simps) simp
  qed
qed

lemma expoDown_bounds: "0 < x \<Longrightarrow> x < 1 \<Longrightarrow> 2 powi (expoDown x) \<le> x \<and> x < 2 powi (expoDown x + 1)"
proof (induction x rule: expoDown.induct)
  case (1 x)
  show ?case
  proof (cases "2 * x < 1")
    case True
    from 1(2) have "0 < 2 * x" by simp
    from 1(1) [OF _ this True] 1(2,3)
    have "2 powi expoDown (2 * x) \<le> 2 * x" "2 * x < 2 powi (expoDown (2 * x) + 1)" by simp_all
    moreover have "2 powi expoDown (2 * x) = 2 * (2 powi (expoDown (2 * x) - 1) :: real)"
      using powi2_Suc [of "expoDown (2 * x) - 1"] by simp
    moreover have "2 powi (expoDown (2 * x) + 1) = 2 * (2 powi (expoDown (2 * x)) :: real)"
      by (rule powi2_Suc)
    ultimately have "2 powi (expoDown (2 * x) - 1) \<le> x" "x < 2 powi (expoDown (2 * x) - 1 + 1)"
      by simp_all
    moreover have "expoDown x = expoDown (2 * x) - 1"
      using 1(2,3) by (subst expoDown.simps) simp
    ultimately show ?thesis by simp
  next
    case False
    then have e: "expoDown (2 * x) = 0" by (subst expoDown.simps) simp
    from False have "1 / 2 \<le> x" by simp
    then show ?thesis
      using 1(2,3) by (subst (1 2) expoDown.simps) (simp add: e)
  qed
qed

lemma expo_bounds: "x \<noteq> 0 \<Longrightarrow> 2 powi (expo x) \<le> \<bar>x\<bar> \<and> \<bar>x\<bar> < 2 powi (expo x + 1)"
  using expoUp_bounds [of "\<bar>x\<bar>"] expoDown_bounds [of "\<bar>x\<bar>"] by (auto simp: expo_def)

lemma powi2_less: "(2 :: real) powi a < 2 powi b \<Longrightarrow> a < b"
  by (metis linorder_not_le power_int_increasing one_le_numeral)

lemma expo_eq:
  assumes "2 powi e \<le> \<bar>x\<bar>" "\<bar>x\<bar> < 2 powi (e + 1)"
  shows "expo x = e"
proof -
  have pos: "(0 :: real) < 2 powi e" by simp
  with assms(1) have "0 < \<bar>x\<bar>" by linarith
  then have "x \<noteq> 0" by simp
  from expo_bounds [OF this] have b: "2 powi (expo x) \<le> \<bar>x\<bar>" "\<bar>x\<bar> < 2 powi (expo x + 1)" by simp_all
  from b(1) assms(2) have "(2 :: real) powi expo x < 2 powi (e + 1)" by simp
  then have 1: "expo x < e + 1" by (rule powi2_less)
  from assms(1) b(2) have "(2 :: real) powi e < 2 powi (expo x + 1)" by simp
  then have 2: "e < expo x + 1" by (rule powi2_less)
  from 1 2 show ?thesis by simp
qed

lemma expo_abs [simp]: "expo \<bar>x\<bar> = expo x" "expo (- x) = expo x"
  by (simp_all add: expo_def)

lemma expo_zero [simp]: "expo 0 = 0"
  by (simp add: expo_def expoDown.simps)

lemma rne_of_int [simp]: "rne (of_int n) = n"
  by (simp add: rne_def)

lemma rne_zero [simp]: "rne 0 = 0"
  using rne_of_int [of 0] by simp

lemma rne_cases: "rne q = \<lfloor>q\<rfloor> \<or> rne q = \<lfloor>q\<rfloor> + 1"
  by (simp add: rne_def Let_def)

lemma rne_floor_le: "\<lfloor>q\<rfloor> \<le> rne q"
  using rne_cases [of q] by auto

lemma rne_le_ceil: "rne q \<le> \<lfloor>q\<rfloor> + 1"
  using rne_cases [of q] by auto

lemma rne_mono:
  assumes "q \<le> q'"
  shows "rne q \<le> rne q'"
proof (cases "\<lfloor>q\<rfloor> = \<lfloor>q'\<rfloor>")
  case True
  with assms have "q - of_int \<lfloor>q\<rfloor> \<le> q' - of_int \<lfloor>q'\<rfloor>" by simp
  with True show ?thesis by (auto simp: rne_def Let_def)
next
  case False
  with assms have "\<lfloor>q\<rfloor> < \<lfloor>q'\<rfloor>" using floor_mono [of q q'] by linarith
  then have "rne q \<le> \<lfloor>q'\<rfloor>" using rne_le_ceil [of q] by linarith
  also have "\<dots> \<le> rne q'" by (rule rne_floor_le)
  finally show ?thesis .
qed

lemma rne_close: "\<bar>of_int (rne q) - q\<bar> \<le> 1 / 2"
proof -
  define r where "r = q - of_int \<lfloor>q\<rfloor>"
  have r: "0 \<le> r" "r < 1" unfolding r_def by linarith+
  have q: "q = of_int \<lfloor>q\<rfloor> + r" by (simp add: r_def)
  consider "r < 1 / 2" | "1 / 2 < r" | "r = 1 / 2" by linarith
  then show ?thesis
  proof cases
    case 1
    then have "rne q = \<lfloor>q\<rfloor>" by (simp add: rne_def Let_def r_def)
    then show ?thesis using r 1 q by simp
  next
    case 2
    then have "rne q = \<lfloor>q\<rfloor> + 1" by (simp add: rne_def Let_def r_def)
    then show ?thesis using r 2 q by simp
  next
    case 3
    have "of_int (rne q) - q = - r \<or> of_int (rne q) - q = 1 - r"
      using rne_cases [of q] q by auto
    then show ?thesis using 3 by auto
  qed
qed

lemma rne_nonneg: "0 \<le> q \<Longrightarrow> 0 \<le> rne q"
  using rne_mono [of 0 q] by simp

lemma powi2_split: "(2 :: real) powi (a + b) = 2 powi a * 2 powi b"
  by (simp add: power_int_add)

lemma powi2_mono: "a \<le> b \<Longrightarrow> (2 :: real) powi a \<le> 2 powi b"
  by (rule power_int_increasing) simp_all

lemma powi2_53: "(2 :: real) powi (a + 1) = 2 powi (a - 52) * 2 ^ 53"
proof -
  have "a + 1 = a - 52 + 53" by arith
  then have "(2 :: real) powi (a + 1) = 2 powi (a - 52 + 53)" by (rule arg_cong)
  then show ?thesis by (simp only: powi2_split power_int_numeral)
qed

lemma powi2_52: "(2 :: real) powi a = 2 powi (a - 52) * 2 ^ 52"
proof -
  have "a = a - 52 + 52" by arith
  then have "(2 :: real) powi a = 2 powi (a - 52 + 52)" by (rule arg_cong)
  then show ?thesis by (simp only: powi2_split power_int_numeral)
qed

lemma ulp64_pos [simp]: "0 < ulp64 x"
  by (simp add: ulp64_def)

lemma ulp64_nonneg [simp]: "0 \<le> ulp64 x"
  using ulp64_pos [of x] by (rule less_imp_le)

lemma ulp64_nz [simp]: "ulp64 x \<noteq> 0"
  by (simp add: ulp64_def)

lemma ulp64_sym [simp]: "ulp64 (- x) = ulp64 x" "ulp64 \<bar>x\<bar> = ulp64 x"
  by (simp_all add: ulp64_def)

lemma round64_zero [simp]: "round64 0 = 0"
  by (simp add: round64_def)

lemma round64_minus: "round64 (- x) = - round64 x"
  by (simp add: round64_def sgn_minus)

lemma round64_pos: "0 < x \<Longrightarrow> round64 x = of_int (rne (x / ulp64 x)) * ulp64 x"
  by (simp add: round64_def)

lemma round64_nonneg:
  assumes "0 \<le> x"
  shows "0 \<le> round64 x"
proof (cases "x = 0")
  case True
  then show ?thesis by simp
next
  case False
  with assms have x: "0 < x" by simp
  then have "0 \<le> x / ulp64 x" by simp
  then have "0 \<le> rne (x / ulp64 x)" by (rule rne_nonneg)
  then show ?thesis by (simp add: round64_pos [OF x])
qed

lemma round64_eval:
  assumes "2 powi e \<le> \<bar>x\<bar>" "\<bar>x\<bar> < 2 powi (e + 1)"
  shows "round64 x = sgn x * (of_int (rne (\<bar>x\<bar> / 2 powi (max e (- 1022) - 52))) * 2 powi (max e (- 1022) - 52))"
  by (simp add: round64_def ulp64_def expo_eq [OF assms])

lemma expo_mono:
  assumes "0 < x" "x \<le> y"
  shows "expo x \<le> expo y"
proof -
  from assms have nz: "x \<noteq> 0" "y \<noteq> 0" by auto
  from expo_bounds [OF nz(1)] expo_bounds [OF nz(2)] assms
  have "(2 :: real) powi expo x < 2 powi (expo y + 1)" by simp
  then have "expo x < expo y + 1" by (rule powi2_less)
  then show ?thesis by simp
qed

lemma round64_mono_pos:
  assumes x: "0 < x" and xy: "x \<le> y"
  shows "round64 x \<le> round64 y"
proof -
  from assms have y: "0 < y" by simp
  define ex where "ex = max (expo x) (- 1022)"
  define ey where "ey = max (expo y) (- 1022)"
  have ux: "ulp64 x = 2 powi (ex - 52)" and uy: "ulp64 y = 2 powi (ey - 52)"
    by (simp_all add: ulp64_def ex_def ey_def)
  have le: "ex \<le> ey" using expo_mono [OF x xy] by (simp add: ex_def ey_def)
  show ?thesis
  proof (cases "ex = ey")
    case True
    then have u: "ulp64 x = ulp64 y" by (simp add: ux uy)
    have "x / ulp64 y \<le> y / ulp64 y" by (rule divide_right_mono [OF xy]) simp
    then have "rne (x / ulp64 y) \<le> rne (y / ulp64 y)" by (rule rne_mono)
    then have "of_int (rne (x / ulp64 y)) * ulp64 y \<le> of_int (rne (y / ulp64 y)) * ulp64 y"
      by (simp add: mult_right_mono)
    then show ?thesis by (simp add: round64_pos x y u)
  next
    case False
    with le have lt: "ex < ey" by simp
    then have ey': "ey = expo y" by (simp add: ex_def ey_def max_def split: if_splits)
    have "x \<noteq> 0" "y \<noteq> 0" using x y by simp_all
    then have bx: "x < 2 powi (expo x + 1)" and by': "2 powi expo y \<le> y"
      using expo_bounds [of x] expo_bounds [of y] x y by simp_all
    have "(2 :: real) powi (expo x + 1) \<le> 2 powi (ex + 1)"
      by (rule powi2_mono) (simp add: ex_def)
    with bx have bx': "x < 2 powi (ex + 1)" by simp
    have s1: "(2 :: real) powi (ex + 1) = 2 powi (ex - 52) * 2 ^ 53"
      by (rule powi2_53)
    have s2: "(2 :: real) powi ey = 2 powi (ey - 52) * 2 ^ 52"
      by (rule powi2_52)
    have "x / ulp64 x \<le> 2 ^ 53"
      using bx' by (simp add: ux s1 pos_divide_le_eq mult.commute)
    then have "rne (x / ulp64 x) \<le> rne (2 ^ 53)" by (rule rne_mono)
    also have "rne (2 ^ 53 :: real) = 2 ^ 53" using rne_of_int [of "2 ^ 53"] by simp
    finally have "real_of_int (rne (x / ulp64 x)) \<le> of_int (2 ^ 53)" by (simp only: of_int_le_iff)
    then have "real_of_int (rne (x / ulp64 x)) \<le> 2 ^ 53" by simp
    then have "round64 x \<le> 2 ^ 53 * ulp64 x"
      by (simp add: round64_pos x mult_right_mono)
    also have "\<dots> = 2 powi (ex + 1)" by (simp add: ux s1)
    also have "\<dots> \<le> 2 powi ey" by (rule powi2_mono) (use lt in simp)
    finally have A: "round64 x \<le> 2 powi ey" .
    have "2 ^ 52 \<le> y / ulp64 y"
      using by' by (simp add: uy ey' [symmetric] s2 pos_le_divide_eq mult.commute)
    then have "rne (2 ^ 52) \<le> rne (y / ulp64 y)" by (rule rne_mono)
    moreover have "rne (2 ^ 52 :: real) = 2 ^ 52" using rne_of_int [of "2 ^ 52"] by simp
    ultimately have "(2 ^ 52 :: int) \<le> rne (y / ulp64 y)" by simp
    then have "of_int (2 ^ 52) \<le> real_of_int (rne (y / ulp64 y))" by (simp only: of_int_le_iff)
    then have "2 ^ 52 \<le> real_of_int (rne (y / ulp64 y))" by simp
    then have "2 ^ 52 * ulp64 y \<le> round64 y"
      by (simp add: round64_pos y mult_right_mono)
    moreover have "2 ^ 52 * ulp64 y = 2 powi ey" by (simp add: uy s2)
    ultimately have B: "2 powi ey \<le> round64 y" by simp
    from A B show ?thesis by simp
  qed
qed

lemma round64_mono:
  assumes "x \<le> y"
  shows "round64 x \<le> round64 y"
proof -
  consider "0 < x" | "x \<le> 0" "0 \<le> y" | "y < 0" by linarith
  then show ?thesis
  proof cases
    case 1
    then show ?thesis using assms by (rule round64_mono_pos)
  next
    case 2
    have "round64 x \<le> 0" using round64_nonneg [of "- x"] 2(1) by (simp add: round64_minus)
    also have "0 \<le> round64 y" using 2(2) by (rule round64_nonneg)
    finally show ?thesis .
  next
    case 3
    then have "0 < - y" "- y \<le> - x" using assms by simp_all
    then have "round64 (- y) \<le> round64 (- x)" by (rule round64_mono_pos)
    then show ?thesis by (simp add: round64_minus)
  qed
qed

lemma round64_repr:
  assumes x: "x = of_int m * 2 powi k" and m: "\<bar>m\<bar> < 2 ^ 53" and k: "- 1074 \<le> k"
  shows "round64 x = x"
proof (cases "m = 0")
  case True
  with x show ?thesis by simp
next
  case False
  then have nz: "x \<noteq> 0" by (simp add: x)
  define E where "E = max (expo x) (- 1022) - 52"
  have ax: "\<bar>x\<bar> = of_int \<bar>m\<bar> * 2 powi k" by (simp add: x abs_mult)
  have "real_of_int \<bar>m\<bar> < of_int (2 ^ 53)" using m by (simp only: of_int_less_iff)
  then have "real_of_int \<bar>m\<bar> < 2 ^ 53" by simp
  then have "\<bar>x\<bar> < 2 ^ 53 * 2 powi k" unfolding ax by (simp add: mult_strict_right_mono)
  also have "\<dots> = 2 powi (k + 53)" by (simp add: powi2_split)
  finally have "\<bar>x\<bar> < 2 powi (k + 53)" .
  with expo_bounds [OF nz] have "(2 :: real) powi expo x < 2 powi (k + 53)" by simp
  then have "expo x < k + 53" by (rule powi2_less)
  with k have E: "E \<le> k" by (simp add: E_def)
  have "(2 :: real) powi k = 2 powi (E + (k - E))" by simp
  also have "\<dots> = 2 powi E * 2 powi (k - E)" by (rule powi2_split)
  also have "(2 :: real) powi (k - E) = 2 ^ nat (k - E)" using E by (simp add: power_int_def)
  finally have pk: "(2 :: real) powi k = 2 powi E * 2 ^ nat (k - E)" .
  have "\<bar>x\<bar> / 2 powi E = of_int \<bar>m\<bar> * 2 ^ nat (k - E)" by (simp add: ax pk)
  also have "\<dots> = of_int (\<bar>m\<bar> * 2 ^ nat (k - E))" by simp
  finally have q: "\<bar>x\<bar> / 2 powi E = of_int (\<bar>m\<bar> * 2 ^ nat (k - E))" .
  have "round64 x = sgn x * (of_int (rne (\<bar>x\<bar> / 2 powi E)) * 2 powi E)"
    by (simp add: round64_def ulp64_def E_def)
  also have "\<dots> = sgn x * (\<bar>x\<bar> / 2 powi E * 2 powi E)"
    unfolding q rne_of_int by simp
  also have "\<dots> = sgn x * \<bar>x\<bar>" by simp
  also have "\<dots> = x" by (simp add: sgn_mult_abs)
  finally show ?thesis .
qed

lemma round64_int:
  assumes "\<bar>n\<bar> \<le> 2 ^ 53"
  shows "round64 (of_int n) = of_int n"
proof (cases "\<bar>n\<bar> < 2 ^ 53")
  case True
  show ?thesis by (rule round64_repr [of _ n 0]) (use True in simp_all)
next
  case False
  with assms have "n = 2 ^ 53 \<or> n = - (2 ^ 53)" by linarith
  then have "real_of_int n = of_int (sgn n * 2 ^ 52) * 2 powi 1" by auto
  moreover have "\<bar>sgn n * 2 ^ 52\<bar> < (2 :: int) ^ 53" by (simp add: abs_mult abs_sgn_eq)
  ultimately show ?thesis by (intro round64_repr [of _ "sgn n * 2 ^ 52" 1]) simp_all
qed


section \<open>Rounded results\<close>

lemma fl64_fin: "\<bar>round64 x\<bar> < 2 ^ 1024 \<Longrightarrow> fl64 x = Finite (round64 x)"
  by (simp add: fl64_def Let_def)

lemma fl64_Finite: "fl64 x = Finite y \<Longrightarrow> y = round64 x \<and> \<bar>y\<bar> < 2 ^ 1024"
  by (auto simp: fl64_def Let_def split: if_splits)

lemma fl64_not_NaN [simp]: "fl64 x \<noteq> NaN"
  by (simp add: fl64_def Let_def)

lemma fl64_int:
  assumes "\<bar>n\<bar> \<le> 2 ^ 53"
  shows "fl64 (of_int n) = Finite (of_int n)"
proof -
  have "real_of_int \<bar>n\<bar> \<le> of_int (2 ^ 53)" using assms by (simp only: of_int_le_iff)
  then have "\<bar>real_of_int n\<bar> \<le> 2 ^ 53" by simp
  also have "(2 :: real) ^ 53 < 2 ^ 1024" by simp
  finally show ?thesis by (simp add: fl64_fin round64_int [OF assms])
qed

lemma fl64_nat: "n \<le> 2 ^ 53 \<Longrightarrow> fl64 (real n) = Finite (real n)"
  using fl64_int [of "int n"] by simp

lemma fl64_numeral [simp]: "numeral k \<le> (2 :: int) ^ 53 \<Longrightarrow> fl64 (numeral k) = Finite (numeral k)"
  using fl64_int [of "numeral k"] by simp

lemma fl64_0 [simp]: "fl64 0 = Finite 0"
  using fl64_int [of 0] by simp

lemma fl64_1 [simp]: "fl64 1 = Finite 1"
  using fl64_int [of 1] by simp

lemma fl64_dyadic:
  assumes "x = of_int m * 2 powi k" "\<bar>m\<bar> < 2 ^ 53" "- 1074 \<le> k" "\<bar>x\<bar> < 2 ^ 1024"
  shows "fl64 x = Finite x"
  using assms(4) by (simp add: fl64_fin round64_repr [OF assms(1-3)])

lemma fl64_eval:
  assumes "2 powi e \<le> \<bar>x\<bar>" "\<bar>x\<bar> < 2 powi (e + 1)"
    and "sgn x * (of_int (rne (\<bar>x\<bar> / 2 powi (max e (- 1022) - 52))) * 2 powi (max e (- 1022) - 52)) = y"
    and "\<bar>y\<bar> < 2 ^ 1024"
  shows "fl64 x = Finite y"
  using assms(3,4) round64_eval [OF assms(1,2)] by (simp add: fl64_def Let_def)

text \<open>The double nearest to 1.01 lies just above it.\<close>

lemma c101_value: "c101 = Finite (4548635623644201 / 4503599627370496)"
  unfolding c101_def by (rule fl64_eval [of 0]) (simp_all add: rne_def)

section \<open>Risk of ruin\<close>







section \<open>The normalised odds and the win probability in double precision\<close>

lemma inRange64_fl64 [simp]: "inRange64 (fl64 x)"
  by (simp add: inRange64_def fl64_def Let_def)

lemma inRange64_special [simp]: "inRange64 PosInfinity" "inRange64 NegInfinity" "inRange64 NaN"
  "inRange64 (Finite 0)"
  by (simp_all add: inRange64_def)

lemma inRange64_toDouble [simp]: "inRange64 (toDouble a)"
  by (cases a) simp_all

lemma inRange64_signed_inf [simp]: "inRange64 (signed_inf s)"
  by (simp add: signed_inf_def)

lemma inRange64_add64 [simp]: "inRange64 (add64 a b)"
  by (cases a; cases b) simp_all

lemma inRange64_div64 [simp]: "inRange64 (div64 a b)"
  by (cases a; cases b) simp_all

lemma inRange64_c101 [simp]: "inRange64 c101"
  by (simp add: c101_def)

lemma inRange64_max: "inRange64 a \<Longrightarrow> inRange64 b \<Longrightarrow> inRange64 (Math_max a b)"
  by (simp add: Math_max_def)

lemma odds_guard64:
  assumes "inRange64 x"
  shows "\<exists>r. (if \<not> isFinite x \<or> js_lt x c101 then c101 else x) = Finite r
       \<and> 4548635623644201 / 4503599627370496 \<le> r \<and> r < 2 ^ 1024"
proof (cases "\<not> isFinite x \<or> js_lt x c101")
  case True
  then show ?thesis
    by (intro exI [of _ "4548635623644201 / 4503599627370496"]) (simp add: c101_value)
next
  case False
  then obtain r where r: "x = Finite r" "4548635623644201 / 4503599627370496 \<le> r"
    by (cases x) (auto simp: c101_value)
  with assms have "r < 2 ^ 1024" by (simp add: inRange64_def)
  with False r show ?thesis by simp
qed

lemma convertToDecimal64_range:
  "\<exists>r. convertToDecimal64 toStr v t = Finite r
       \<and> 4548635623644201 / 4503599627370496 \<le> r \<and> r < 2 ^ 1024"
proof -
  have a: "inRange64 (americanToDecimal64 x)" for x
    by (simp add: americanToDecimal64_def Let_def inRange64_max)
  have f: "inRange64 (fractionalToDecimal64 x)" for x
    by (simp add: fractionalToDecimal64_def fractionalToDecimal_body64_def Let_def
        split: jsval.split list.split)
  have i: "inRange64 (impliedProbabilityToDecimal64 x)" for x
    by (simp add: impliedProbabilityToDecimal64_def)
  have p: "inRange64 (parseFloat64 toStr x)" for x
    by (simp add: parseFloat64_def)
  show ?thesis
    unfolding convertToDecimal64_def Let_def
    by (rule odds_guard64) (simp add: a f i p)
qed

lemma round64_between:
  assumes "lo \<le> x" "x \<le> hi" "round64 lo = lo'" "round64 hi = hi'"
  shows "lo' \<le> round64 x \<and> round64 x \<le> hi'"
  using round64_mono [OF assms(1)] round64_mono [OF assms(2)] assms(3,4) by simp

text \<open>
  The win probability of normalised odds \<open>r\<close>: \<open>1 / r\<close>, times 100, divided by 100, each
  rounded. It lies between \<open>2^-1024\<close> and the double 0.9900990099009901.
\<close>

lemma winP64_valid:
  assumes r: "4548635623644201 / 4503599627370496 \<le> r" "r < 2 ^ 1024"
  shows "\<exists>w. div64 (decimalToImpliedProbability64 (Finite r)) (Finite 100) = Finite w
           \<and> 0 < w \<and> w < 1"
proof -
  define t :: real where "t = 2 powi (- 1024)"
  have t: "0 < t" "t < 1" by (simp_all add: t_def)
  have rt: "round64 t = t"
    unfolding t_def by (rule round64_repr [of _ 1 "- 1024"]) simp_all
  have rt100: "round64 (t * 100) = t * 100"
    unfolding t_def by (rule round64_repr [of _ 25 "- 1022"]) simp_all
  from r have r0: "0 < r" by simp
  have A: "round64 (1 / (4548635623644201 / 4503599627370496)) =
      1114752383012499 / 1125899906842624"
    using round64_eval [of "- 1" "1 / (4548635623644201 / 4503599627370496)"]
    by (simp add: rne_def)
  have B: "round64 (1114752383012499 / 1125899906842624 * 100) =
      6967202393828119 / 70368744177664"
    using round64_eval [of 6 "1114752383012499 / 1125899906842624 * 100"]
    by (simp add: rne_def)
  have W: "round64 (6967202393828119 / 70368744177664 / 100) =
      1114752383012499 / 1125899906842624"
    using round64_eval [of "- 1" "6967202393828119 / 70368744177664 / 100"]
    by (simp add: rne_def)
  define a where "a = round64 (1 / r)"
  define b where "b = round64 (a * 100)"
  define w where "w = round64 (b / 100)"
  have "t \<le> 1 / r"
    using r r0 by (simp add: t_def field_simps)
  moreover have "1 / r \<le> 1 / (4548635623644201 / 4503599627370496)"
    using r by (intro divide_left_mono) simp_all
  ultimately have a: "t \<le> a" "a \<le> 1114752383012499 / 1125899906842624"
    using round64_between [OF _ _ rt A, of "1 / r"] by (simp_all add: a_def)
  then have "t * 100 \<le> a * 100" "a * 100 \<le> 1114752383012499 / 1125899906842624 * 100"
    by simp_all
  then have b: "t * 100 \<le> b" "b \<le> 6967202393828119 / 70368744177664"
    using round64_between [OF _ _ rt100 B, of "a * 100"] by (simp_all add: b_def)
  then have "t \<le> b / 100" "b / 100 \<le> 6967202393828119 / 70368744177664 / 100"
    by simp_all
  then have w: "t \<le> w" "w \<le> 1114752383012499 / 1125899906842624"
    using round64_between [OF _ _ rt W, of "b / 100"] by (simp_all add: w_def)
  have fa: "fl64 (1 / r) = Finite a"
    unfolding a_def using a t by (intro fl64_fin) (simp add: a_def)
  have fb: "fl64 (a * 100) = Finite b"
    unfolding b_def using b t by (intro fl64_fin) (simp add: b_def)
  have fw: "fl64 (b / 100) = Finite w"
    unfolding w_def using w t by (intro fl64_fin) (simp add: w_def)
  have "div64 (decimalToImpliedProbability64 (Finite r)) (Finite 100) = Finite w"
    using r r0 by (simp add: decimalToImpliedProbability64_def c101_value fa fb fw)
  moreover have "0 < w" "w < 1" using w t by simp_all
  ultimately show ?thesis by blast
qed

text \<open>
  A configuration that passes the checks on \<open>baseBet\<close>, \<open>bankroll\<close> and \<open>oddsType\<close> is
  accepted in double precision as well: its progression is that of the loop.
\<close>

lemma calculate64_progression:
  assumes b: "baseBet cfg = Finite b" "0 < b"
    and k: "bankroll cfg = Finite k" "0 < k"
    and t: "oddsType cfg \<in> set [DECIMAL, AMERICAN, FRACTIONAL, IMPLIED]"
  shows "map_option (map_sum id progression) (calculateMartingaleProgression64 pw toStr cfg) =
     map_option Inr
       (progressionLoop64 (convertToDecimal64 toStr (odds cfg) (oddsType cfg)) (maxRoundsOf cfg)
          (targetProfit cfg) (betMultiplierOf cfg) (maxTableLimit cfg) [] (Finite b) (Finite 0)
          (Finite 0) (Finite 1) (Finite k))"
proof -
  obtain r where d: "convertToDecimal64 toStr (odds cfg) (oddsType cfg) = Finite r"
    and r: "4548635623644201 / 4503599627370496 \<le> r" "r < 2 ^ 1024"
    using convertToDecimal64_range by blast
  obtain w where w: "div64 (decimalToImpliedProbability64 (Finite r)) (Finite 100) = Finite w"
    "0 < w" "w < 1"
    using winP64_valid [OF r] by blast
  have ne: "oddsType cfg \<noteq> []"
    using t by (auto simp: DECIMAL_def AMERICAN_def FRACTIONAL_def IMPLIED_def)
  have r1: "\<not> r \<le> 1" using r(1) by simp
  show ?thesis
    unfolding calculateMartingaleProgression64_def Let_def d w(1)
    using b k t ne r1 w(2,3)
    by (simp add: js_ge_def split: option.split)
qed

section \<open>Termination and length of the progression\<close>

text \<open>
  The counter is exact below \<open>2^53\<close>: with \<open>maxRounds\<close> below \<open>2^53\<close> the loop ends, after
  at most \<open>maxRounds - round + 1\<close> more rounds.
\<close>

lemma progressionLoop64_halts:
  assumes m: "m < 2 ^ 53"
  shows "\<exists>prog'. progressionLoop64 d (Finite m) target mu tlim prog cb tL w (Finite (real c)) rem =
           Some prog'
     \<and> length prog' \<le> length prog + (nat \<lfloor>m\<rfloor> + 1 - c)"
proof (induction "nat \<lfloor>m\<rfloor> + 1 - c" arbitrary: prog cb tL w c rem)
  case 0
  then have "\<not> real c \<le> m" unfolding real_le_floor by linarith
  then show ?case
    by (subst progressionLoop64.simps) simp
next
  case (Suc n)
  show ?case
  proof (cases "real c \<le> m")
    case False
    then show ?thesis
      by (subst progressionLoop64.simps) simp
  next
    case cm: True
    from Suc.hyps(2) have n: "n = nat \<lfloor>m\<rfloor> + 1 - Suc c" by linarith
    from cm m have "real c < 2 ^ 53" by simp
    then have "real c < real (2 ^ 53)" by simp
    then have "c < 2 ^ 53" by (simp only: of_nat_less_iff)
    then have "Suc c \<le> 2 ^ 53" by simp
    then have "fl64 (real (Suc c)) = Finite (real (Suc c))" by (rule fl64_nat)
    then have next_round: "add64 (Finite (real c)) (Finite 1) = Finite (real (Suc c))"
      by (simp add: add.commute)
    define row where "row = emitRound64 d target cb tL w (Finite (real c)) rem"
    have "\<exists>prog'. progressionLoop64 d (Finite m) target mu tlim (prog @ [row]) (mul64 cb mu)
              (add64 tL cb) (add64 w cb) (Finite (real (Suc c))) (sub64 rem cb) = Some prog'
            \<and> length prog' \<le> length (prog @ [row]) + (nat \<lfloor>m\<rfloor> + 1 - Suc c)"
      by (rule Suc.hyps(1) [OF n])
    then obtain prog' where
      rec: "progressionLoop64 d (Finite m) target mu tlim (prog @ [row]) (mul64 cb mu)
              (add64 tL cb) (add64 w cb) (Finite (real (Suc c))) (sub64 rem cb) = Some prog'"
      and len: "length prog' \<le> length (prog @ [row]) + (nat \<lfloor>m\<rfloor> + 1 - Suc c)"
      by blast
    from Suc.hyps(2) have le: "c \<le> nat \<lfloor>m\<rfloor>" by linarith
    show ?thesis
      by (subst progressionLoop64.simps)
         (use rec len le cm in \<open>auto simp add: Let_def row_def [symmetric] next_round
            simp del: js_le.simps add64.simps\<close>)
  qed
qed





section \<open>Monotonicity of the progression\<close>

lemma js_le_trans: "js_le a b \<Longrightarrow> js_le b c \<Longrightarrow> js_le a c"
  by (cases a; cases b; cases c) simp_all

lemma js_lt_le_trans: "js_lt a b \<Longrightarrow> js_le b c \<Longrightarrow> js_lt a c"
  by (cases a; cases b; cases c) simp_all

lemma js_le_refl: "a \<noteq> NaN \<Longrightarrow> js_le a a"
  by (cases a) simp_all

text \<open>A rounded value is a double: rounding it again changes nothing.\<close>

lemma round64_significand:
  assumes "x \<noteq> 0"
  shows "rne (\<bar>x\<bar> / ulp64 x) \<le> 2 ^ 53"
proof -
  define E where "E = max (expo x) (- 1022)"
  have u: "ulp64 x = 2 powi (E - 52)" by (simp add: ulp64_def E_def)
  have "\<bar>x\<bar> < 2 powi (expo x + 1)" using expo_bounds [OF assms] by simp
  also have "\<dots> \<le> 2 powi (E + 1)" by (rule powi2_mono) (simp add: E_def)
  also have "\<dots> = 2 powi (E - 52) * 2 ^ 53" by (rule powi2_53)
  finally have "\<bar>x\<bar> / ulp64 x \<le> 2 ^ 53"
    by (simp add: u pos_divide_le_eq mult.commute)
  then have "rne (\<bar>x\<bar> / ulp64 x) \<le> rne (2 ^ 53)" by (rule rne_mono)
  also have "rne (2 ^ 53 :: real) = 2 ^ 53" using rne_of_int [of "2 ^ 53"] by simp
  finally show ?thesis .
qed

lemma round64_idem: "round64 (round64 x) = round64 x"
proof (cases "x = 0")
  case True
  then show ?thesis by simp
next
  case False
  define E where "E = max (expo x) (- 1022) - 52"
  define M where "M = rne (\<bar>x\<bar> / ulp64 x)"
  have u: "ulp64 x = 2 powi E" by (simp add: ulp64_def E_def)
  have E: "- 1074 \<le> E" by (simp add: E_def)
  have M: "0 \<le> M" "M \<le> 2 ^ 53"
    using round64_significand [OF False] by (simp_all add: M_def rne_nonneg)
  have val: "round64 x = of_int (sgn \<lfloor>x\<rfloor> * 0 + (if 0 < x then M else - M)) * 2 powi E"
    using False by (simp add: round64_def u M_def sgn_if)
  show ?thesis
  proof (cases "M = 2 ^ 53")
    case False
    with M have m: "\<bar>if 0 < x then M else - M\<bar> < 2 ^ 53" by simp
    show ?thesis
      by (rule round64_repr [of _ "if 0 < x then M else - M" E]) (use val m E in simp_all)
  next
    case True
    have "(2 :: real) powi (E + 1) = 2 * 2 powi E" by (rule powi2_Suc)
    then have "round64 x = of_int (if 0 < x then 2 ^ 52 else - (2 ^ 52)) * 2 powi (E + 1)"
      using val True by simp
    moreover have "\<bar>if 0 < x then (2 :: int) ^ 52 else - (2 ^ 52)\<bar> < 2 ^ 53" by simp
    ultimately show ?thesis
      by (intro round64_repr [of _ "if 0 < x then 2 ^ 52 else - (2 ^ 52)" "E + 1"]) (use E in simp_all)
  qed
qed

lemma isDouble_fl64: "fl64 x = Finite y \<Longrightarrow> isDouble y"
  by (auto simp: isDouble_def dest!: fl64_Finite simp: round64_idem)

lemma double64_fl64 [simp]: "double64 (fl64 x)"
  by (cases "fl64 x") (simp_all add: double64_def isDouble_fl64)

lemma fl64_isDouble: "isDouble x \<Longrightarrow> fl64 x = Finite x"
  by (simp add: isDouble_def fl64_fin)

text \<open>Rounding keeps the order: the rounded value of \<open>x\<close> against a double \<open>y\<close>.\<close>

lemma fl64_ge:
  assumes "isDouble y" "y \<le> x"
  shows "js_le (Finite y) (fl64 x)"
proof -
  have "y \<le> round64 x" using round64_mono [OF assms(2)] assms(1) by (simp add: isDouble_def)
  moreover from assms(1) have "\<bar>y\<bar> < 2 ^ 1024" by (simp add: isDouble_def)
  ultimately have "- (2 ^ 1024) < round64 x" by (simp only: abs_less_iff) linarith
  with \<open>y \<le> round64 x\<close> show ?thesis by (auto simp: fl64_def Let_def)
qed

lemma fl64_le:
  assumes "isDouble y" "x \<le> y"
  shows "js_le (fl64 x) (Finite y)"
proof -
  have "round64 x \<le> y" using round64_mono [OF assms(2)] assms(1) by (simp add: isDouble_def)
  moreover from assms(1) have "\<bar>y\<bar> < 2 ^ 1024" by (simp add: isDouble_def)
  ultimately have "round64 x < 2 ^ 1024" by (simp only: abs_less_iff) linarith
  with \<open>round64 x \<le> y\<close> show ?thesis by (auto simp: fl64_def Let_def)
qed

text \<open>
  The loop keeps an invariant \<open>I\<close> of its variables: what it returns satisfies \<open>I\<close> with
  some values of the other variables.
\<close>

lemma progressionLoop64_invariant:
  assumes run: "progressionLoop64 d maxR target mu tlim prog cb tL w rnd rem = Some y"
    and init: "I prog cb tL w rnd rem"
    and step: "\<And>prog cb tL w rnd rem. I prog cb tL w rnd rem \<Longrightarrow> js_le rnd maxR \<Longrightarrow>
        \<not> js_gt cb rem \<Longrightarrow>
        I (prog @ [emitRound64 d target cb tL w rnd rem]) (mul64 cb mu) (add64 tL cb)
          (add64 w cb) (add64 rnd (Finite 1)) (sub64 rem cb)"
  shows "\<exists>cb' tL' w' rnd' rem'. I y cb' tL' w' rnd' rem'"
proof -
  have "d = d \<and> maxR = maxR \<and> target = target \<and> mu = mu \<and> tlim = tlim
      \<and> I prog cb tL w rnd rem \<longrightarrow> (\<exists>cb' tL' w' rnd' rem'. I y cb' tL' w' rnd' rem')"
  proof (rule progressionLoop64.raw_induct [where P = "\<lambda>d' maxR' target' mu' tlim' prog cb tL w
      rnd rem y. d' = d \<and> maxR' = maxR \<and> target' = target \<and> mu' = mu \<and> tlim' = tlim
        \<and> I prog cb tL w rnd rem \<longrightarrow> (\<exists>cb' tL' w' rnd' rem'. I y cb' tL' w' rnd' rem')",
      OF _ run])
    fix f :: "jsnum \<Rightarrow> jsnum \<Rightarrow> jsnum option \<Rightarrow> jsnum \<Rightarrow> jsnum option \<Rightarrow>
        progression_round list \<Rightarrow> jsnum \<Rightarrow> jsnum \<Rightarrow> jsnum \<Rightarrow> jsnum \<Rightarrow> jsnum \<Rightarrow>
        progression_round list option"
      and d' maxR' :: jsnum and target' :: "jsnum option" and mu' :: jsnum
      and tlim' :: "jsnum option" and prog :: "progression_round list"
      and cb tL w rnd rem :: jsnum and y :: "progression_round list"
    assume IH: "\<And>d' maxR' target' mu' tlim' prog cb tL w rnd rem y.
        f d' maxR' target' mu' tlim' prog cb tL w rnd rem = Some y \<Longrightarrow>
        d' = d \<and> maxR' = maxR \<and> target' = target \<and> mu' = mu \<and> tlim' = tlim
          \<and> I prog cb tL w rnd rem \<longrightarrow> (\<exists>cb' tL' w' rnd' rem'. I y cb' tL' w' rnd' rem')"
    assume body: "(if js_le rnd maxR' then
        (if js_gt cb rem then Some prog
         else if truthyOpt tlim' \<and> js_gt cb (orNull tlim') then Some prog
         else
           (let row = emitRound64 d' target' cb tL w rnd rem
            in if truthyOpt target' \<and> js_ge (netProfitIfWin row) (orNull target') then
                 Some (prog @ [row])
               else f d' maxR' target' mu' tlim'
                      (prog @ [row]) (mul64 cb mu')
                      (add64 tL cb) (add64 w cb)
                      (add64 rnd (Finite 1)) (sub64 rem cb)))
      else Some prog) = Some y"
    show "d' = d \<and> maxR' = maxR \<and> target' = target \<and> mu' = mu \<and> tlim' = tlim
          \<and> I prog cb tL w rnd rem \<longrightarrow> (\<exists>cb' tL' w' rnd' rem'. I y cb' tL' w' rnd' rem')"
    proof
      assume a: "d' = d \<and> maxR' = maxR \<and> target' = target \<and> mu' = mu \<and> tlim' = tlim
          \<and> I prog cb tL w rnd rem"
      then have eq: "d' = d" "maxR' = maxR" "target' = target" "mu' = mu" "tlim' = tlim"
        and inv: "I prog cb tL w rnd rem" by simp_all
      define row where "row = emitRound64 d target cb tL w rnd rem"
      show "\<exists>cb' tL' w' rnd' rem'. I y cb' tL' w' rnd' rem'"
      proof (cases "js_le rnd maxR \<and> \<not> js_gt cb rem
          \<and> \<not> (truthyOpt tlim \<and> js_gt cb (orNull tlim))")
        case False
        with body have "y = prog" by (auto simp: eq split: if_splits)
        with inv show ?thesis by blast
      next
        case True
        then have next_inv: "I (prog @ [row]) (mul64 cb mu) (add64 tL cb) (add64 w cb)
            (add64 rnd (Finite 1)) (sub64 rem cb)"
          unfolding row_def by (intro step inv) simp_all
        show ?thesis
        proof (cases "truthyOpt target \<and> js_ge (netProfitIfWin row) (orNull target)")
          case met: True
          with body True have "y = prog @ [row]"
            by (simp add: eq Let_def row_def [symmetric])
          with next_inv show ?thesis by blast
        next
          case False
          with body True have "f d maxR target mu tlim (prog @ [row]) (mul64 cb mu)
              (add64 tL cb) (add64 w cb) (add64 rnd (Finite 1)) (sub64 rem cb) = Some y"
            by (simp add: eq Let_def row_def [symmetric])
          from IH [OF this] next_inv show ?thesis by blast
        qed
      qed
    qed
  qed
  with init show ?thesis by simp
qed

lemma emitRound64_fields:
  "betAmount (emitRound64 d target cb tL w rnd rem) = cb"
  "cumulativeLoss (emitRound64 d target cb tL w rnd rem) = sub64 (add64 tL cb) cb"
  "totalWagered (emitRound64 d target cb tL w rnd rem) = add64 w cb"
  "remainingBankroll (emitRound64 d target cb tL w rnd rem) = sub64 rem cb"
  by (simp_all add: emitRound64_def Let_def)

lemma isDouble_0 [simp]: "isDouble 0"
  by (simp add: isDouble_def)

lemma double64_special [simp]: "double64 PosInfinity" "double64 NegInfinity" "double64 NaN"
  by (simp_all add: double64_def)

text \<open>A bet that is placed is finite, and at most the remaining bankroll.\<close>

lemma placed_bet:
  assumes "loopState64 cb w rem" "\<not> js_gt cb rem"
  obtains c rm where "cb = Finite c" "rem = Finite rm" "0 < c" "c \<le> rm" "isDouble c" "isDouble rm"
  using assms by (cases cb; cases rem) (auto simp: loopState64_def js_gt_def double64_def)

lemma next_bet:
  assumes "isDouble c" "0 < c" "1 < m"
  shows "js_le (Finite c) (mul64 (Finite c) (Finite m))"
    and "js_lt (Finite 0) (mul64 (Finite c) (Finite m))"
    and "double64 (mul64 (Finite c) (Finite m))"
proof -
  have "c \<le> c * m" using assms(2,3) by simp
  then show le: "js_le (Finite c) (mul64 (Finite c) (Finite m))"
    using fl64_ge [OF assms(1)] by simp
  have "js_lt (Finite 0) (Finite c)" using assms(2) by simp
  then show "js_lt (Finite 0) (mul64 (Finite c) (Finite m))"
    using le by (rule js_lt_le_trans)
  show "double64 (mul64 (Finite c) (Finite m))" by simp
qed

lemma next_wagered:
  assumes "js_le (Finite 0) w" "double64 w" "0 < c"
  shows "js_le w (add64 w (Finite c))" and "js_le (Finite 0) (add64 w (Finite c))"
    and "double64 (add64 w (Finite c))"
proof -
  show le: "js_le w (add64 w (Finite c))"
  proof (cases w)
    case (Finite x)
    with assms(2) have "isDouble x" by (simp add: double64_def)
    moreover have "x \<le> x + c" using assms(3) by simp
    ultimately show ?thesis using fl64_ge [of x "x + c"] Finite by simp
  qed (use assms(1) in simp_all)
  from assms(1) le show "js_le (Finite 0) (add64 w (Finite c))" by (rule js_le_trans)
  show "double64 (add64 w (Finite c))"
    by (cases w) simp_all
qed

lemma next_remaining:
  assumes "isDouble rm" "0 < c" "c \<le> rm"
  shows "js_le (sub64 (Finite rm) (Finite c)) (Finite rm)"
    and "isFinite (sub64 (Finite rm) (Finite c))"
    and "double64 (sub64 (Finite rm) (Finite c))"
proof -
  have "rm - c \<le> rm" "0 \<le> rm - c" using assms(2,3) by simp_all
  then have le: "js_le (fl64 (rm - c)) (Finite rm)" and ge: "js_le (Finite 0) (fl64 (rm - c))"
    using fl64_le [OF assms(1), of "rm - c"] fl64_ge [OF isDouble_0, of "rm - c"] by simp_all
  from le show "js_le (sub64 (Finite rm) (Finite c)) (Finite rm)" by simp
  from le ge show "isFinite (sub64 (Finite rm) (Finite c))"
    by (cases "fl64 (rm - c)") simp_all
  show "double64 (sub64 (Finite rm) (Finite c))" by simp
qed

text \<open>One iteration keeps the order of the rounds and the state of the loop variables.\<close>

lemma monotone_step:
  fixes d tL rnd :: jsnum and target :: "jsnum option"
  assumes st: "loopState64 cb w rem" and go: "\<not> js_gt cb rem" and m: "1 < m"
    and sorted: "sorted_wrt rowBefore64 prog" and below: "\<forall>r\<in>set prog. rowBelow64 r cb w rem"
  defines "row \<equiv> emitRound64 d target cb tL w rnd rem"
  shows "loopState64 (mul64 cb (Finite m)) (add64 w cb) (sub64 rem cb)"
    and "sorted_wrt rowBefore64 (prog @ [row])"
    and "\<forall>r\<in>set (prog @ [row]). rowBelow64 r (mul64 cb (Finite m)) (add64 w cb) (sub64 rem cb)"
proof -
  from st go obtain c rm where v: "cb = Finite c" "rem = Finite rm" "0 < c" "c \<le> rm"
    "isDouble c" "isDouble rm"
    by (rule placed_bet)
  from st have w: "js_le (Finite 0) w" "double64 w" by (simp_all add: loopState64_def)
  note nb = next_bet [OF v(5,3) m]
  note nw = next_wagered [OF w v(3)]
  note nr = next_remaining [OF v(6,3,4)]
  show "loopState64 (mul64 cb (Finite m)) (add64 w cb) (sub64 rem cb)"
    unfolding v loopState64_def using nb nw nr by blast
  have w': "js_le (add64 w (Finite c)) (add64 w (Finite c))"
    using nw(2) by (cases "add64 w (Finite c)") simp_all
  have r': "js_le (sub64 (Finite rm) (Finite c)) (sub64 (Finite rm) (Finite c))"
    using nr(2) by (cases "sub64 (Finite rm) (Finite c)") simp_all
  have old: "rowBelow64 r (mul64 cb (Finite m)) (add64 w cb) (sub64 rem cb)
      \<and> rowBefore64 r row" if "r \<in> set prog" for r
  proof -
    from below that have b: "js_le (betAmount r) (Finite c)" "js_le (totalWagered r) w"
      "js_le (Finite rm) (remainingBankroll r)"
      by (simp_all add: rowBelow64_def v)
    have 1: "js_le (betAmount r) (mul64 (Finite c) (Finite m))"
      using b(1) nb(1) by (rule js_le_trans)
    have 2: "js_le (totalWagered r) (add64 w (Finite c))"
      using b(2) nw(1) by (rule js_le_trans)
    have 3: "js_le (sub64 (Finite rm) (Finite c)) (remainingBankroll r)"
      using nr(1) b(3) by (rule js_le_trans)
    show ?thesis
      unfolding rowBelow64_def rowBefore64_def row_def emitRound64_fields v js_ge_def
      using 1 2 3 b(1) by blast
  qed
  have new: "rowBelow64 row (mul64 cb (Finite m)) (add64 w cb) (sub64 rem cb)"
    unfolding rowBelow64_def row_def emitRound64_fields v
    using nb(1) w' r' by blast
  from sorted old show "sorted_wrt rowBefore64 (prog @ [row])"
    by (simp add: sorted_wrt_append)
  from old new show "\<forall>r\<in>set (prog @ [row]).
      rowBelow64 r (mul64 cb (Finite m)) (add64 w cb) (sub64 rem cb)"
    by auto
qed

lemma progressionLoop64_monotone:
  assumes run: "progressionLoop64 d maxR target (Finite m) tlim [] (Finite b) tL (Finite 0) rnd
      (Finite k) = Some y"
    and m: "1 < m" and b: "0 < b" "isDouble b" and k: "isDouble k"
  shows "sorted_wrt rowBefore64 y"
proof -
  define I where "I = (\<lambda>prog cb (tL :: jsnum) w (rnd :: jsnum) rem.
     loopState64 cb w rem \<and> sorted_wrt rowBefore64 prog \<and> (\<forall>r\<in>set prog. rowBelow64 r cb w rem))"
  have init: "I [] (Finite b) tL (Finite 0) rnd (Finite k)"
    using b k by (simp add: I_def loopState64_def double64_def)
  have "\<exists>cb' tL' w' rnd' rem'. I y cb' tL' w' rnd' rem'"
    using run init
  proof (rule progressionLoop64_invariant)
    fix prog cb tL w rnd rem
    assume inv: "I prog cb tL w rnd rem" and go: "\<not> js_gt cb rem"
    from inv have st: "loopState64 cb w rem" and sorted: "sorted_wrt rowBefore64 prog"
      and below: "\<forall>r\<in>set prog. rowBelow64 r cb w rem"
      by (simp_all add: I_def)
    show "I (prog @ [emitRound64 d target cb tL w rnd rem]) (mul64 cb (Finite m))
        (add64 tL cb) (add64 w cb) (add64 rnd (Finite 1)) (sub64 rem cb)"
      unfolding I_def
      by (intro conjI monotone_step [OF st go m sorted below])
  qed
  then show ?thesis by (auto simp: I_def)
qed

text \<open>The doubles above 1 start at \<open>1 + 2^-52\<close>.\<close>

lemma double_above_1:
  assumes "isDouble m" "1 < m"
  shows "1 + 2 powi (- 52) \<le> m"
proof (cases "m < 2")
  case False
  then show ?thesis by simp
next
  case True
  have e: "expo m = 0" by (rule expo_eq) (use assms(2) True in simp_all)
  have u: "ulp64 m = 2 powi (- 52)" by (simp add: ulp64_def e)
  define N where "N = rne (m / 2 powi (- 52))"
  from assms have "round64 m = m" "0 < m" by (simp_all add: isDouble_def)
  then have m: "m = of_int N * 2 powi (- 52)" by (simp add: round64_pos u N_def)
  with assms(2) have "1 < real_of_int N * 2 powi (- 52)" by simp
  then have "2 ^ 52 < real_of_int N" by simp
  then have "real_of_int (2 ^ 52) < real_of_int N" by simp
  then have "2 ^ 52 < N" by (simp only: of_int_less_iff)
  then have "2 ^ 52 + 1 \<le> N" by simp
  then have "real_of_int (2 ^ 52 + 1) \<le> real_of_int N" by (simp only: of_int_le_iff)
  then have "(2 ^ 52 + 1) * 2 powi (- 52) \<le> real_of_int N * 2 powi (- 52)" by simp
  then show ?thesis unfolding m [symmetric] by simp
qed

text \<open>
  A normal double \<open>c\<close> is a multiple \<open>M * ulp64 c\<close> with \<open>M < 2^53\<close>; the next double is
  \<open>c + ulp64 c\<close>, and a number from there on rounds to more than \<open>c\<close>.
\<close>

lemma expo_normal:
  assumes "2 powi (- 1022) \<le> c"
  shows "- 1022 \<le> expo c"
proof -
  have "(0 :: real) < 2 powi (- 1022)" by (rule powi2_pos)
  with assms have c: "0 < c" by linarith
  have "expo (2 powi (- 1022)) = - 1022" by (rule expo_eq) simp_all
  moreover have "expo (2 powi (- 1022)) \<le> expo c" by (rule expo_mono) (use assms in simp_all)
  ultimately show ?thesis by simp
qed

lemma next_double:
  assumes d: "isDouble c" and n: "2 powi (- 1022) \<le> c"
  shows "round64 (c + ulp64 c) = c + ulp64 c"
proof -
  have "(0 :: real) < 2 powi (- 1022)" by (rule powi2_pos)
  with n have c: "0 < c" by linarith
  then have nz: "c \<noteq> 0" by simp
  define e where "e = expo c"
  have e: "- 1022 \<le> e" unfolding e_def using n by (rule expo_normal)
  then have u: "ulp64 c = 2 powi (e - 52)" by (simp add: ulp64_def e_def max_def)
  define M where "M = rne (c / ulp64 c)"
  from d c have cM: "c = of_int M * 2 powi (e - 52)"
    by (simp add: isDouble_def round64_pos u [symmetric] M_def)
  have "c < 2 powi (e + 1)" using expo_bounds [OF nz] c by (simp add: e_def)
  also have "\<dots> = 2 powi (e - 52) * 2 ^ 53" by (rule powi2_53)
  finally have "real_of_int M * 2 powi (e - 52) < 2 ^ 53 * 2 powi (e - 52)"
    using cM by (simp add: mult.commute)
  then have "real_of_int M < 2 ^ 53" by simp
  then have "real_of_int M < real_of_int (2 ^ 53)" by simp
  then have M: "M < 2 ^ 53" by (simp only: of_int_less_iff)
  have "0 < real_of_int M * 2 powi (e - 52)" using c cM by simp
  then have "0 < real_of_int M" by (rule zero_less_mult_pos2) (rule powi2_pos)
  then have M0: "0 < M" by simp
  have sum: "c + ulp64 c = of_int (M + 1) * 2 powi (e - 52)"
    by (simp add: u cM [symmetric] algebra_simps)
  show ?thesis
  proof (cases "M + 1 = 2 ^ 53")
    case False
    with M M0 have "\<bar>M + 1\<bar> < 2 ^ 53" by simp
    then show ?thesis
      by (intro round64_repr [OF sum]) (use e in simp_all)
  next
    case True
    have "(2 :: real) powi (e - 52 + 1) = 2 * 2 powi (e - 52)" by (rule powi2_Suc)
    then have "c + ulp64 c = of_int (2 ^ 52) * 2 powi (e - 52 + 1)"
      unfolding sum True by simp
    then show ?thesis
      by (rule round64_repr) (use e in simp_all)
  qed
qed

lemma rounds_above:
  assumes d: "isDouble c" and n: "2 powi (- 1022) \<le> c" and x: "c * (1 + 2 powi (- 52)) \<le> x"
  shows "c < round64 x"
proof -
  have "(0 :: real) < 2 powi (- 1022)" by (rule powi2_pos)
  with n have c: "0 < c" by linarith
  then have nz: "c \<noteq> 0" by simp
  have e: "- 1022 \<le> expo c" using n by (rule expo_normal)
  then have u: "ulp64 c = 2 powi (expo c - 52)" by (simp add: ulp64_def max_def)
  have "(2 :: real) powi (expo c - 52) = 2 powi (expo c) * 2 powi (- 52)"
    using powi2_split [of "expo c" "- 52"] by simp
  also have "\<dots> \<le> c * 2 powi (- 52)"
    using expo_bounds [OF nz] c by (intro mult_right_mono) simp_all
  finally have "ulp64 c \<le> c * 2 powi (- 52)" by (simp add: u)
  then have "c + ulp64 c \<le> c * (1 + 2 powi (- 52))" by (simp add: algebra_simps)
  with x have "c + ulp64 c \<le> x" by simp
  then have "round64 (c + ulp64 c) \<le> round64 x" by (rule round64_mono)
  then have "c + ulp64 c \<le> round64 x" by (simp only: next_double [OF d n])
  moreover have "0 < ulp64 c" by simp
  ultimately show ?thesis by linarith
qed

lemma fl64_gt:
  assumes "isDouble y" "y < round64 x"
  shows "js_lt (Finite y) (fl64 x)"
proof -
  from assms(1) have "\<bar>y\<bar> < 2 ^ 1024" by (simp add: isDouble_def)
  then have "- (2 ^ 1024) < round64 x" using assms(2) by (simp only: abs_less_iff) linarith
  with assms(2) show ?thesis by (auto simp: fl64_def Let_def)
qed

text \<open>The bets grow strictly while they are normal doubles.\<close>

lemma strict_step:
  assumes c: "isDouble c" "2 powi (- 1022) \<le> c" and m: "isDouble m" "1 < m"
  shows "js_lt (Finite c) (mul64 (Finite c) (Finite m))"
    and "mul64 (Finite c) (Finite m) = Finite c' \<Longrightarrow> 2 powi (- 1022) \<le> c'"
proof -
  have "(0 :: real) < 2 powi (- 1022)" by (rule powi2_pos)
  with c(2) have c0: "0 < c" by linarith
  have "c * (1 + 2 powi (- 52)) \<le> c * m"
    using double_above_1 [OF m] c0 by (intro mult_left_mono) simp_all
  then have gt: "c < round64 (c * m)" by (rule rounds_above [OF c])
  then show "js_lt (Finite c) (mul64 (Finite c) (Finite m))"
    using fl64_gt [OF c(1)] by simp
  assume "mul64 (Finite c) (Finite m) = Finite c'"
  then have "c' = round64 (c * m)" using fl64_Finite [of "c * m" c'] by simp
  with gt c(2) show "2 powi (- 1022) \<le> c'" by linarith
qed

lemma progressionLoop64_strict:
  assumes run: "progressionLoop64 d maxR target (Finite m) tlim [] (Finite b) tL (Finite 0) rnd
      (Finite k) = Some y"
    and m: "1 < m" "isDouble m" and b: "isDouble b" "2 powi (- 1022) \<le> b" and k: "isDouble k"
  shows "sorted_wrt (\<lambda>r s. js_lt (betAmount r) (betAmount s)) y"
proof -
  define I where "I = (\<lambda>(prog :: progression_round list) cb (tL :: jsnum) w (rnd :: jsnum) rem.
     loopState64 cb w rem
     \<and> (\<forall>c. cb = Finite c \<longrightarrow> 2 powi (- 1022) \<le> c)
     \<and> sorted_wrt (\<lambda>r s. js_lt (betAmount r) (betAmount s)) prog
     \<and> (\<forall>r\<in>set prog. js_lt (betAmount r) cb))"
  have "(0 :: real) < 2 powi (- 1022)" by (rule powi2_pos)
  with b(2) have b0: "0 < b" by linarith
  have init: "I [] (Finite b) tL (Finite 0) rnd (Finite k)"
    using b b0 k by (simp add: I_def loopState64_def double64_def)
  have "\<exists>cb' tL' w' rnd' rem'. I y cb' tL' w' rnd' rem'"
    using run init
  proof (rule progressionLoop64_invariant)
    fix prog cb tL w rnd rem
    assume inv: "I prog cb tL w rnd rem" and go: "\<not> js_gt cb rem"
    from inv have st: "loopState64 cb w rem"
      and normal: "\<forall>c. cb = Finite c \<longrightarrow> 2 powi (- 1022) \<le> c"
      and sorted: "sorted_wrt (\<lambda>r s. js_lt (betAmount r) (betAmount s)) prog"
      and below: "\<forall>r\<in>set prog. js_lt (betAmount r) cb"
      by (simp_all add: I_def)
    from st go obtain c rm where v: "cb = Finite c" "rem = Finite rm" "0 < c" "c \<le> rm"
      "isDouble c" "isDouble rm"
      by (rule placed_bet)
    from normal v(1) have n: "2 powi (- 1022) \<le> c" by simp
    note ss = strict_step [OF v(5) n m(2,1)]
    have st': "loopState64 (mul64 cb (Finite m)) (add64 w cb) (sub64 rem cb)"
      by (rule monotone_step(1) [OF st go m(1), of "[]"]) simp_all
    have le: "js_le (Finite c) (mul64 (Finite c) (Finite m))"
      by (rule next_bet(1) [OF v(5,3) m(1)])
    have old: "js_lt (betAmount r) (mul64 (Finite c) (Finite m))" if "r \<in> set prog" for r
      using below that le unfolding v by (auto intro: js_lt_le_trans)
    show "I (prog @ [emitRound64 d target cb tL w rnd rem]) (mul64 cb (Finite m))
        (add64 tL cb) (add64 w cb) (add64 rnd (Finite 1)) (sub64 rem cb)"
      unfolding I_def
      using st' ss sorted below old
      by (auto simp: v sorted_wrt_append emitRound64_fields)
  qed
  then show ?thesis by (auto simp: I_def)
qed

text \<open>The error of rounding is at most half the distance of the neighbouring doubles.\<close>

lemma round64_close:
  assumes t: "2 powi (- 1075) \<le> t" and x: "\<bar>x\<bar> * 2 powi (- 53) \<le> t"
  shows "\<bar>round64 x - x\<bar> \<le> t"
proof (cases "x = 0")
  case True
  have "(0 :: real) < 2 powi (- 1075)" by (rule powi2_pos)
  with t True show ?thesis by simp
next
  case False
  define u where "u = ulp64 x"
  have u: "0 < u" by (simp add: u_def)
  have "round64 x - x = sgn x * (of_int (rne (\<bar>x\<bar> / u)) * u) - sgn x * \<bar>x\<bar>"
    by (simp add: round64_def u_def sgn_mult_abs)
  also have "\<dots> = sgn x * ((of_int (rne (\<bar>x\<bar> / u)) - \<bar>x\<bar> / u) * u)"
    using u by (simp add: algebra_simps)
  finally have "\<bar>round64 x - x\<bar> = \<bar>of_int (rne (\<bar>x\<bar> / u)) - \<bar>x\<bar> / u\<bar> * u"
    using False u by (simp add: abs_mult abs_sgn_eq)
  also have "\<dots> \<le> 1 / 2 * u"
    using rne_close [of "\<bar>x\<bar> / u"] u by (intro mult_right_mono) simp_all
  finally have err: "\<bar>round64 x - x\<bar> \<le> u / 2" by simp
  have "u / 2 \<le> t"
  proof (cases "expo x \<le> - 1022")
    case True
    then have "u = 2 powi (- 1074)" by (simp add: u_def ulp64_def max_def)
    moreover have "(2 :: real) powi (- 1074) = 2 * 2 powi (- 1075)"
      using powi2_Suc [of "- 1075"] by simp
    ultimately show ?thesis using t by simp
  next
    case False
    then have "u = 2 powi (expo x - 52)" by (simp add: u_def ulp64_def max_def)
    also have "\<dots> = 2 powi (expo x + (- 53 + 1))" by simp
    also have "\<dots> = 2 powi (expo x) * 2 powi (- 53 + 1)" by (rule powi2_split)
    also have "(2 :: real) powi (- 53 + 1) = 2 * 2 powi (- 53)" by (rule powi2_Suc)
    finally have "u / 2 = 2 powi (expo x) * 2 powi (- 53)" by simp
    also have "\<dots> \<le> \<bar>x\<bar> * 2 powi (- 53)"
      using expo_bounds [OF \<open>x \<noteq> 0\<close>] by (intro mult_right_mono) simp_all
    finally show ?thesis using x by simp
  qed
  with err show ?thesis by simp
qed

lemma positive_double:
  assumes "isDouble c" "0 < c"
  shows "2 powi (- 1074) \<le> c"
proof -
  define M where "M = rne (c / ulp64 c)"
  from assms have c: "c = of_int M * ulp64 c" by (simp add: isDouble_def round64_pos M_def)
  with assms(2) have "0 < real_of_int M * ulp64 c" by simp
  then have "0 < real_of_int M" by (rule zero_less_mult_pos2) (rule ulp64_pos)
  then have "1 \<le> M" by simp
  then have "1 \<le> real_of_int M" by simp
  then have "1 * ulp64 c \<le> real_of_int M * ulp64 c" by (intro mult_right_mono) simp_all
  then have "ulp64 c \<le> c" using c by simp
  moreover have "(2 :: real) powi (- 1074) \<le> ulp64 c"
    unfolding ulp64_def by (rule powi2_mono) simp
  ultimately show ?thesis by simp
qed

lemma fl64_mono:
  assumes "x \<le> y"
  shows "js_le (fl64 x) (fl64 y)"
proof -
  have r: "round64 x \<le> round64 y" using assms by (rule round64_mono)
  have p: "(0 :: real) < 2 ^ 1024" by simp
  consider "2 ^ 1024 \<le> round64 x" | "round64 y \<le> - (2 ^ 1024)"
    | "round64 x < 2 ^ 1024" "- (2 ^ 1024) < round64 y" by linarith
  then show ?thesis
  proof cases
    case 1
    with r p have "fl64 x = PosInfinity" "fl64 y = PosInfinity"
      by (simp_all add: fl64_def Let_def abs_if)
    then show ?thesis by simp
  next
    case 2
    with r p have "fl64 x = NegInfinity" "fl64 y = NegInfinity"
      by (simp_all add: fl64_def Let_def abs_if)
    then show ?thesis by simp
  next
    case 3
    then show ?thesis
      using r p by (auto simp: fl64_def Let_def abs_if)
  qed
qed

lemma fl64_nonneg:
  assumes "0 \<le> x"
  shows "fl64 x = PosInfinity \<or> (\<exists>y. fl64 x = Finite y \<and> 0 \<le> y \<and> isDouble y \<and> y = round64 x)"
proof (cases "fl64 x")
  case (Finite y)
  with fl64_Finite [OF Finite] isDouble_fl64 [OF Finite] round64_nonneg [OF assms]
  show ?thesis by simp
next
  case NegInfinity
  with round64_nonneg [OF assms] show ?thesis
    by (simp add: fl64_def Let_def split: if_splits)
qed simp_all

text \<open>
  The cumulative loss. Before round \<open>j\<close> the total of the losses is at most \<open>2 (j - 1)\<close>
  times the bet, so with \<open>maxRounds * betMultiplier <= 2^51\<close> the error of adding the bet
  to it is at most the bet before: the loss before a round does not fall below the loss
  before the round before.
\<close>

lemma loss_step:
  assumes T: "0 \<le> T" "T \<le> 2 * real (j - 1) * c"
    and c0: "0 < c0" "isDouble c0" "c0 \<le> c" "c \<le> (m + 1) * c0"
    and j: "1 \<le> j" "real j \<le> n" and nm: "n * m \<le> 2 ^ 51" and m: "1 < m"
  shows "\<bar>round64 (T + c) - (T + c)\<bar> \<le> c0"
proof (rule round64_close)
  have "(2 :: real) powi (- 1075) \<le> 2 powi (- 1074)" by (rule powi2_mono) simp
  also have "\<dots> \<le> c0" using c0(2,1) by (rule positive_double)
  finally show "2 powi (- 1075) \<le> c0" .
  from c0 have c: "0 < c" by simp
  from j have rj: "real (j - 1) = real j - 1" "1 \<le> real j" by simp_all
  have "real j * m \<le> n * m" using j(2) m by (intro mult_right_mono) simp_all
  with nm have jm: "real j * m \<le> 2 ^ 51" by simp
  have "real j * 1 \<le> real j * m" using m rj(2) by (intro mult_left_mono) simp_all
  then have "(2 * real j - 1) * (m + 1) \<le> 4 * (real j * m)"
    using m by (simp add: algebra_simps)
  with jm have K: "(2 * real j - 1) * (m + 1) \<le> 2 ^ 53" by simp
  from T(2) have "T \<le> 2 * (real j - 1) * c" by (simp only: rj)
  then have "T + c \<le> (2 * real j - 1) * c" by (simp add: algebra_simps)
  also have "\<dots> \<le> (2 * real j - 1) * ((m + 1) * c0)"
    using c0(4) rj(2) by (intro mult_left_mono) simp_all
  also have "\<dots> = (2 * real j - 1) * (m + 1) * c0" by simp
  also have "\<dots> \<le> 2 ^ 53 * c0" using K c0(1) by (intro mult_right_mono) simp_all
  finally have "T + c \<le> 2 ^ 53 * c0" .
  moreover have "0 \<le> T + c" using T(1) c by simp
  ultimately show "\<bar>T + c\<bar> * 2 powi (- 53) \<le> c0" by simp
qed

lemma bet_step_bound:
  assumes c: "0 < c" "isDouble c" and m: "1 < m" "m \<le> 2 ^ 51"
  shows "round64 (c * m) \<le> (m + 1) * c"
proof -
  have "\<bar>round64 (c * m) - c * m\<bar> \<le> c"
  proof (rule round64_close)
    have "(2 :: real) powi (- 1075) \<le> 2 powi (- 1074)" by (rule powi2_mono) simp
    also have "\<dots> \<le> c" using c(2,1) by (rule positive_double)
    finally show "2 powi (- 1075) \<le> c" .
    have "c * m \<le> c * 2 ^ 53" using m c(1) by (intro mult_left_mono) simp_all
    moreover have "0 \<le> c * m" using m c(1) by simp
    ultimately show "\<bar>c * m\<bar> * 2 powi (- 53) \<le> c" by simp
  qed
  then show ?thesis by (simp add: algebra_simps abs_le_iff)
qed

lemma js_le_PosInfinity: "a \<noteq> NaN \<Longrightarrow> js_le a PosInfinity"
  by (cases a) simp_all

lemma js_le_not_NaN: "js_le a b \<Longrightarrow> a \<noteq> NaN"
  by (cases a) simp_all

lemma progressionLoop64_losses:
  assumes run: "progressionLoop64 d (Finite n) target (Finite m) tlim [] (Finite b) (Finite 0)
      (Finite 0) (Finite 1) (Finite k) = Some y"
    and m: "1 < m" and b: "0 < b" "isDouble b" and k: "isDouble k" and nm: "n * m \<le> 2 ^ 51"
  shows "sorted_wrt (\<lambda>r s. js_le (cumulativeLoss r) (cumulativeLoss s)) y"
proof -
  define I where "I = (\<lambda>(prog :: progression_round list) cb tL w rnd rem.
     loopState64 cb w rem
     \<and> sorted_wrt (\<lambda>r s. js_le (cumulativeLoss r) (cumulativeLoss s)) prog
     \<and> (\<forall>r\<in>set prog. cumulativeLoss r \<noteq> NaN)
     \<and> (\<exists>j :: nat. 1 \<le> j \<and> rnd = Finite (real j)
          \<and> (tL = PosInfinity
              \<or> (\<exists>T. tL = Finite T \<and> 0 \<le> T \<and> isDouble T
                    \<and> (\<forall>c. cb = Finite c \<longrightarrow>
                          T \<le> 2 * real (j - 1) * c
                          \<and> (prog = [] \<longrightarrow> T = 0)
                          \<and> (prog \<noteq> [] \<longrightarrow>
                               (\<exists>c0. 0 < c0 \<and> isDouble c0 \<and> c0 \<le> c \<and> c \<le> (m + 1) * c0
                                  \<and> (\<forall>r\<in>set prog.
                                        js_le (cumulativeLoss r) (fl64 (T - c0))))))))))"
  have init: "I [] (Finite b) (Finite 0) (Finite 0) (Finite 1) (Finite k)"
    unfolding I_def using b k
    by (auto simp: loopState64_def double64_def intro!: exI [of _ "Suc 0"])
  have "\<exists>cb' tL' w' rnd' rem'. I y cb' tL' w' rnd' rem'"
    using run init
  proof (rule progressionLoop64_invariant)
    fix prog cb tL w rnd rem
    assume inv: "I prog cb tL w rnd rem" and guard: "js_le rnd (Finite n)"
      and go: "\<not> js_gt cb rem"
    define row where "row = emitRound64 d target cb tL w rnd rem"
    from inv have st: "loopState64 cb w rem"
      and sorted: "sorted_wrt (\<lambda>r s. js_le (cumulativeLoss r) (cumulativeLoss s)) prog"
      and nn: "\<forall>r\<in>set prog. cumulativeLoss r \<noteq> NaN"
      by (simp_all add: I_def)
    from st go obtain c rm where v: "cb = Finite c" "rem = Finite rm" "0 < c" "c \<le> rm"
      "isDouble c" "isDouble rm"
      by (rule placed_bet)
    from inv v(1) obtain j :: nat where j: "1 \<le> j" "rnd = Finite (real j)"
      and tl: "tL = PosInfinity
          \<or> (\<exists>T. tL = Finite T \<and> 0 \<le> T \<and> isDouble T \<and> T \<le> 2 * real (j - 1) * c
               \<and> (prog = [] \<longrightarrow> T = 0)
               \<and> (prog \<noteq> [] \<longrightarrow>
                    (\<exists>c0. 0 < c0 \<and> isDouble c0 \<and> c0 \<le> c \<and> c \<le> (m + 1) * c0
                       \<and> (\<forall>r\<in>set prog. js_le (cumulativeLoss r) (fl64 (T - c0))))))"
      unfolding I_def by blast
    from guard j(2) have jn: "real j \<le> n" by simp
    from j(1) have j1: "1 \<le> real j" by simp
    with jn have n1: "1 \<le> n" by simp
    have "n * 1 \<le> n * m" using m n1 by (intro mult_left_mono) simp_all
    with nm jn have j51: "real j \<le> 2 ^ 51" by simp
    have "1 * m \<le> n * m" using m n1 by (intro mult_right_mono) simp_all
    with nm have m51: "m \<le> 2 ^ 51" by simp
    from j51 have "real j \<le> real (2 ^ 51)" by simp
    then have "j \<le> 2 ^ 51" by (simp only: of_nat_le_iff)
    then have "Suc j \<le> 2 ^ 53" by simp
    then have "fl64 (real (Suc j)) = Finite (real (Suc j))" by (rule fl64_nat)
    then have counter: "add64 rnd (Finite 1) = Finite (real (Suc j))"
      by (simp add: j(2) add.commute)
    have st': "loopState64 (mul64 cb (Finite m)) (add64 w cb) (sub64 rem cb)"
      by (rule monotone_step(1) [OF st go m, of "[]"]) simp_all
    have cl: "cumulativeLoss row = sub64 (add64 tL cb) cb"
      by (simp add: row_def emitRound64_fields)
    have next_c: "c \<le> c' \<and> c' \<le> (m + 1) * c" if "mul64 cb (Finite m) = Finite c'" for c'
    proof -
      from that have c': "c' = round64 (c * m)"
        using fl64_Finite [of "c * m" c'] by (simp add: v(1))
      have "js_le (Finite c) (Finite c')"
        using next_bet(1) [OF v(5,3) m] that by (simp add: v(1))
      then show ?thesis
        using bet_step_bound [OF v(3,5) m m51] by (simp add: c')
    qed
    consider (inf) "add64 tL cb = PosInfinity"
      | (fin) T T1 where "tL = Finite T" "0 \<le> T" "isDouble T" "T \<le> 2 * real (j - 1) * c"
          "prog = [] \<longrightarrow> T = 0"
          "prog \<noteq> [] \<longrightarrow>
             (\<exists>c0. 0 < c0 \<and> isDouble c0 \<and> c0 \<le> c \<and> c \<le> (m + 1) * c0
                \<and> (\<forall>r\<in>set prog. js_le (cumulativeLoss r) (fl64 (T - c0))))"
          "add64 tL cb = Finite T1" "0 \<le> T1" "isDouble T1" "T1 = round64 (T + c)"
    proof (cases "tL = PosInfinity")
      case True
      then have "add64 tL cb = PosInfinity" by (simp add: v(1))
      then show ?thesis by (rule inf)
    next
      case False
      with tl obtain T where T: "tL = Finite T" "0 \<le> T" "isDouble T" "T \<le> 2 * real (j - 1) * c"
          "prog = [] \<longrightarrow> T = 0"
          "prog \<noteq> [] \<longrightarrow>
             (\<exists>c0. 0 < c0 \<and> isDouble c0 \<and> c0 \<le> c \<and> c \<le> (m + 1) * c0
                \<and> (\<forall>r\<in>set prog. js_le (cumulativeLoss r) (fl64 (T - c0))))"
        by blast
      have "0 \<le> T + c" using T(2) v(3) by simp
      from fl64_nonneg [OF this] show ?thesis
      proof
        assume "fl64 (T + c) = PosInfinity"
        then have "add64 tL cb = PosInfinity" by (simp add: T(1) v(1))
        then show ?thesis by (rule inf)
      next
        assume "\<exists>y. fl64 (T + c) = Finite y \<and> 0 \<le> y \<and> isDouble y \<and> y = round64 (T + c)"
        then obtain T1 where "fl64 (T + c) = Finite T1" "0 \<le> T1" "isDouble T1"
          "T1 = round64 (T + c)" by blast
        then have "add64 tL cb = Finite T1" "0 \<le> T1" "isDouble T1" "T1 = round64 (T + c)"
          by (simp_all add: T(1) v(1))
        with T show ?thesis by (rule fin)
      qed
    qed
    then show "I (prog @ [emitRound64 d target cb tL w rnd rem]) (mul64 cb (Finite m))
        (add64 tL cb) (add64 w cb) (add64 rnd (Finite 1)) (sub64 rem cb)"
    proof cases
      case inf
      have clr: "cumulativeLoss row = PosInfinity"
        unfolding cl inf by (simp add: v(1) js_sub_def)
      have "sorted_wrt (\<lambda>r s. js_le (cumulativeLoss r) (cumulativeLoss s)) (prog @ [row])"
        using sorted nn by (simp add: sorted_wrt_append clr js_le_PosInfinity)
      moreover have "\<forall>r\<in>set (prog @ [row]). cumulativeLoss r \<noteq> NaN"
        using nn by (simp add: clr)
      ultimately show ?thesis
        unfolding I_def row_def [symmetric] counter inf
        using st' by (auto intro!: exI [of _ "Suc j"])
    next
      case (fin T T1)
      have clr: "cumulativeLoss row = fl64 (T1 - c)"
        unfolding cl fin(7) by (simp add: v(1))
      have err: "\<bar>T1 - (T + c)\<bar> \<le> c"
        and old: "\<forall>r\<in>set prog. js_le (cumulativeLoss r) (fl64 (T1 - c))"
      proof -
        show "\<bar>T1 - (T + c)\<bar> \<le> c"
        proof (cases "prog = []")
          case True
          with fin(5) have "T = 0" by simp
          then have "T1 = c" using fin(10) v(5) by (simp add: isDouble_def)
          with \<open>T = 0\<close> v(3) show ?thesis by simp
        next
          case False
          with fin(6) obtain c0 where c0: "0 < c0" "isDouble c0" "c0 \<le> c" "c \<le> (m + 1) * c0"
            by blast
          from loss_step [OF fin(2,4) c0 j(1) jn nm m] c0(3) show ?thesis
            by (simp add: fin(10))
        qed
        show "\<forall>r\<in>set prog. js_le (cumulativeLoss r) (fl64 (T1 - c))"
        proof (cases "prog = []")
          case True
          then show ?thesis by simp
        next
          case False
          with fin(6) obtain c0 where c0: "0 < c0" "isDouble c0" "c0 \<le> c" "c \<le> (m + 1) * c0"
            and rows: "\<forall>r\<in>set prog. js_le (cumulativeLoss r) (fl64 (T - c0))"
            by blast
          from loss_step [OF fin(2,4) c0 j(1) jn nm m]
          have "T - c0 \<le> T1 - c" by (simp add: fin(10) abs_le_iff)
          then have "js_le (fl64 (T - c0)) (fl64 (T1 - c))" by (rule fl64_mono)
          with rows show ?thesis by (auto intro: js_le_trans)
        qed
      qed
      have self: "js_le (fl64 (T1 - c)) (fl64 (T1 - c))"
        by (rule js_le_refl) simp
      have s: "sorted_wrt (\<lambda>r s. js_le (cumulativeLoss r) (cumulativeLoss s)) (prog @ [row])"
        using sorted old by (simp add: sorted_wrt_append clr)
      have n': "\<forall>r\<in>set (prog @ [row]). cumulativeLoss r \<noteq> NaN"
        using nn by (simp add: clr)
      have rows': "\<forall>r\<in>set (prog @ [row]). js_le (cumulativeLoss r) (fl64 (T1 - c))"
        using old self by (simp add: clr)
      have bound: "T1 \<le> 2 * real (Suc j - 1) * c'" if "c \<le> c'" for c'
      proof -
        from j(1) have rj: "real (j - 1) = real j - 1" by simp
        from fin(4) have T: "T \<le> 2 * (real j - 1) * c" by (simp only: rj)
        from err have "T1 \<le> T + c + c" by (simp add: abs_le_iff)
        also have "\<dots> \<le> 2 * real j * c" using T by (simp add: algebra_simps)
        also have "\<dots> \<le> 2 * real j * c'" using that by (intro mult_left_mono) simp_all
        finally show ?thesis by simp
      qed
      have "\<exists>T. add64 tL cb = Finite T \<and> 0 \<le> T \<and> isDouble T
          \<and> (\<forall>c'. mul64 cb (Finite m) = Finite c' \<longrightarrow>
                T \<le> 2 * real (Suc j - 1) * c'
                \<and> (prog @ [row] = [] \<longrightarrow> T = 0)
                \<and> (prog @ [row] \<noteq> [] \<longrightarrow>
                     (\<exists>c0. 0 < c0 \<and> isDouble c0 \<and> c0 \<le> c' \<and> c' \<le> (m + 1) * c0
                        \<and> (\<forall>r\<in>set (prog @ [row]). js_le (cumulativeLoss r) (fl64 (T - c0))))))"
      proof (rule exI [of _ T1], intro conjI allI impI)
        fix c' assume c': "mul64 cb (Finite m) = Finite c'"
        from next_c [OF c'] show "T1 \<le> 2 * real (Suc j - 1) * c'" by (intro bound) simp
        from next_c [OF c'] v(3,5) rows'
        show "\<exists>c0. 0 < c0 \<and> isDouble c0 \<and> c0 \<le> c' \<and> c' \<le> (m + 1) * c0
            \<and> (\<forall>r\<in>set (prog @ [row]). js_le (cumulativeLoss r) (fl64 (T1 - c0)))"
          by (intro exI [of _ c]) simp
      qed (use fin in simp_all)
      then show ?thesis
        unfolding I_def row_def [symmetric] counter
        using st' s n' by (auto intro!: exI [of _ "Suc j"])
    qed
  qed
  then show ?thesis by (auto simp: I_def)
qed

lemma isDouble_int: "\<bar>n\<bar> \<le> 2 ^ 53 \<Longrightarrow> isDouble (of_int n)"
  using fl64_int [of n] isDouble_fl64 [of "of_int n" "of_int n"] by simp

lemma isDouble_numeral [simp]: "numeral k \<le> (2 :: int) ^ 53 \<Longrightarrow> isDouble (numeral k)"
  using isDouble_int [of "numeral k"] by simp

lemma calculate64_loop:
  assumes "baseBet cfg = Finite b" "0 < b"
    and "bankroll cfg = Finite k" "0 < k"
    and "oddsType cfg \<in> set [DECIMAL, AMERICAN, FRACTIONAL, IMPLIED]"
    and "calculateMartingaleProgression64 pw toStr cfg = Some (Inr res)"
  shows "progressionLoop64 (convertToDecimal64 toStr (odds cfg) (oddsType cfg)) (maxRoundsOf cfg)
          (targetProfit cfg) (betMultiplierOf cfg) (maxTableLimit cfg) [] (Finite b) (Finite 0)
          (Finite 0) (Finite 1) (Finite k) = Some (progression res)"
  using calculate64_progression [OF assms(1-5), of pw toStr] assms(6)
  by (cases "progressionLoop64 (convertToDecimal64 toStr (odds cfg) (oddsType cfg))
          (maxRoundsOf cfg) (targetProfit cfg) (betMultiplierOf cfg) (maxTableLimit cfg) []
          (Finite b) (Finite 0) (Finite 0) (Finite 1) (Finite k)") simp_all

text \<open>
  Claim C6, as amended. For a valid configuration whose numbers are doubles, with a
  finite \<open>betMultiplier > 1\<close>, across the rounds of the progression that
  \<open>calculateMartingaleProgression\<close> returns in double precision: \<open>betAmount\<close> is
  non-decreasing, and strictly increasing when the base bet is a normal double (at least
  \<open>2^-1022\<close>); \<open>cumulativeLoss\<close> is non-decreasing when \<open>maxRounds * betMultiplier <= 2^51\<close>;
  \<open>totalWagered\<close> is non-decreasing and \<open>remainingBankroll\<close> is non-increasing.
\<close>

theorem progression_monotone:
  assumes "baseBet cfg = Finite b" "0 < b" "isDouble b"
    and "bankroll cfg = Finite k" "0 < k" "isDouble k"
    and "oddsType cfg \<in> set [DECIMAL, AMERICAN, FRACTIONAL, IMPLIED]"
    and "betMultiplierOf cfg = Finite m" "1 < m" "isDouble m"
    and "calculateMartingaleProgression64 pw toStr cfg = Some (Inr res)"
  shows "sorted_wrt (\<lambda>r s. js_le (betAmount r) (betAmount s)) (progression res)
     \<and> (2 powi (- 1022) \<le> b \<longrightarrow>
          sorted_wrt (\<lambda>r s. js_lt (betAmount r) (betAmount s)) (progression res))
     \<and> (maxRoundsOf cfg = Finite n \<and> n * m \<le> 2 ^ 51 \<longrightarrow>
          sorted_wrt (\<lambda>r s. js_le (cumulativeLoss r) (cumulativeLoss s)) (progression res))
     \<and> sorted_wrt (\<lambda>r s. js_le (totalWagered r) (totalWagered s)) (progression res)
     \<and> sorted_wrt (\<lambda>r s. js_ge (remainingBankroll r) (remainingBankroll s)) (progression res)"
proof -
  note loop = calculate64_loop [OF assms(1,2,4,5,7,11), unfolded assms(8)]
  have s: "sorted_wrt rowBefore64 (progression res)"
    by (rule progressionLoop64_monotone [OF loop assms(9,2,3,6)])
  have "sorted_wrt (\<lambda>r s. js_le (betAmount r) (betAmount s)) (progression res)"
    "sorted_wrt (\<lambda>r s. js_le (totalWagered r) (totalWagered s)) (progression res)"
    "sorted_wrt (\<lambda>r s. js_ge (remainingBankroll r) (remainingBankroll s)) (progression res)"
    by (rule sorted_wrt_mono_rel [OF _ s], simp add: rowBefore64_def)+
  moreover have "sorted_wrt (\<lambda>r s. js_lt (betAmount r) (betAmount s)) (progression res)"
    if "2 powi (- 1022) \<le> b"
    by (rule progressionLoop64_strict [OF loop assms(9,10,3) that assms(6)])
  moreover have "sorted_wrt (\<lambda>r s. js_le (cumulativeLoss r) (cumulativeLoss s)) (progression res)"
    if "maxRoundsOf cfg = Finite n \<and> n * m \<le> 2 ^ 51"
    using loop that progressionLoop64_losses [OF _ assms(9,2,3,6), of _ n] by simp
  ultimately show ?thesis by blast
qed

theorem progression_monotone_witness:
  "\<exists>res. calculateMartingaleProgression64 pow64 showNumber standardCase = Some (Inr res)
     \<and> sorted_wrt (\<lambda>r s. js_lt (betAmount r) (betAmount s)) (progression res)
     \<and> sorted_wrt (\<lambda>r s. js_le (cumulativeLoss r) (cumulativeLoss s)) (progression res)
     \<and> sorted_wrt (\<lambda>r s. js_le (totalWagered r) (totalWagered s)) (progression res)
     \<and> sorted_wrt (\<lambda>r s. js_ge (remainingBankroll r) (remainingBankroll s)) (progression res)"
proof -
  have "(10 :: real) < 2 ^ 53" by simp
  from progressionLoop64_halts [OF this]
  obtain prog where "progressionLoop64 (convertToDecimal64 showNumber (odds standardCase)
      (oddsType standardCase)) (Finite 10) None (Finite 2) None [] (Finite 10) (Finite 0)
      (Finite 0) (Finite (real (Suc 0))) (Finite 1000) = Some prog"
    by blast
  with calculate64_progression [of standardCase 10 1000 pow64 showNumber]
  have "map_option (map_sum id progression)
      (calculateMartingaleProgression64 pow64 showNumber standardCase) = Some (Inr prog)"
    by (simp add: standardCase_def maxRoundsOf_def betMultiplierOf_def)
  then obtain res where res: "calculateMartingaleProgression64 pow64 showNumber standardCase =
      Some (Inr res)"
    by (cases "calculateMartingaleProgression64 pow64 showNumber standardCase")
       (auto simp: map_sum_def split: sum.splits)
  from progression_monotone [of standardCase 10 1000 2 pow64 showNumber res 10, OF _ _ _ _ _ _ _ _ _ _ res]
  have "sorted_wrt (\<lambda>r s. js_lt (betAmount r) (betAmount s)) (progression res)
     \<and> sorted_wrt (\<lambda>r s. js_le (cumulativeLoss r) (cumulativeLoss s)) (progression res)
     \<and> sorted_wrt (\<lambda>r s. js_le (totalWagered r) (totalWagered s)) (progression res)
     \<and> sorted_wrt (\<lambda>r s. js_ge (remainingBankroll r) (remainingBankroll s)) (progression res)"
    by (simp add: standardCase_def maxRoundsOf_def betMultiplierOf_def)
  with res show ?thesis by blast
qed

text \<open>
  The claim as stated fails for a first bet of \<open>2^-1074\<close> (\<open>5e-324\<close>) and the multiplier
  1.4: five rounds are returned and the five bets are equal.
\<close>

lemma decimal_2: "convertToDecimal64 toStr (JStr ''2.00'') DECIMAL = Finite 2"
  by (simp add: convertToDecimal64_def parseFloat64_def c101_value odds_eval parse_eval)

theorem equal_bets:
  "\<exists>res. calculateMartingaleProgression64 pow64 showNumber subnormalCase = Some (Inr res)
     \<and> map betAmount (progression res) = replicate 5 (Finite (2 powi (- 1074)))"
proof -
  have bet: "fl64 (2 powi (- 1074) * (6305039478318694 / 4503599627370496)) =
      Finite (2 powi (- 1074))"
    by (rule fl64_eval [of "- 1074"]) (simp_all add: rne_def)
  have left: "fl64 (1 - 2 powi (- 1074)) = Finite 1"
    by (rule fl64_eval [of "- 1"]) (simp_all add: rne_def)
  have "\<exists>prog. progressionLoop64 (Finite 2) (Finite 5) None
      (Finite (6305039478318694 / 4503599627370496)) None [] (Finite (2 powi (- 1074)))
      (Finite 0) (Finite 0) (Finite 1) (Finite 1) = Some prog
    \<and> map betAmount prog = replicate 5 (Finite (2 powi (- 1074)))"
    using bet left
    by (simp add: progressionLoop64.simps Let_def truthyOpt_def js_gt_def emitRound64_fields
        eval_nat_numeral)
  then obtain prog where prog: "progressionLoop64 (Finite 2) (Finite 5) None
      (Finite (6305039478318694 / 4503599627370496)) None [] (Finite (2 powi (- 1074)))
      (Finite 0) (Finite 0) (Finite 1) (Finite 1) = Some prog"
    and bets: "map betAmount prog = replicate 5 (Finite (2 powi (- 1074)))"
    by blast
  have "map_option (map_sum id progression)
      (calculateMartingaleProgression64 pow64 showNumber subnormalCase) = Some (Inr prog)"
    using calculate64_progression [of subnormalCase "2 powi (- 1074)" 1 pow64 showNumber] prog
    by (simp add: subnormalCase_def maxRoundsOf_def betMultiplierOf_def decimal_2)
  then obtain res where "calculateMartingaleProgression64 pow64 showNumber subnormalCase =
      Some (Inr res)" "progression res = prog"
    by (cases "calculateMartingaleProgression64 pow64 showNumber subnormalCase")
       (auto simp: map_sum_def split: sum.splits)
  with bets show ?thesis by simp
qed

text \<open>
  Beyond \<open>maxRounds * betMultiplier <= 2^51\<close> the cumulative loss can fall: with a first
  bet of 3 and the multiplier \<open>5 * 2^51\<close> it is 0, 4 and 0 before the three rounds.
\<close>

lemma loss_drops:
  "\<exists>res. calculateMartingaleProgression64 pow64 showNumber steepCase = Some (Inr res)
     \<and> map cumulativeLoss (progression res) = [Finite 0, Finite 4, Finite 0]"
proof -
  have c2: "fl64 (3 * (5 * 2 ^ 51)) = Finite (15 * 2 ^ 51)"
    by (rule fl64_eval [of 54]) (simp_all add: rne_def)
  have t2: "fl64 (3 + 15 * 2 ^ 51) = Finite (15 * 2 ^ 51 + 4)"
    by (rule fl64_eval [of 54]) (simp_all add: rne_def)
  have c3: "fl64 (15 * 2 ^ 51 * (5 * 2 ^ 51)) = Finite (75 * 2 ^ 102)"
    by (rule fl64_eval [of 108]) (simp_all add: rne_def)
  have t3: "fl64 (15 * 2 ^ 51 + 4 + 75 * 2 ^ 102) = Finite (75 * 2 ^ 102)"
    by (rule fl64_eval [of 108]) (simp_all add: rne_def)
  have r1: "fl64 (2 ^ 200 - 3) = Finite (2 ^ 200)"
    by (rule fl64_eval [of 199]) (simp_all add: rne_def)
  have r2: "fl64 (2 ^ 200 - 15 * 2 ^ 51) = Finite (2 ^ 200)"
    by (rule fl64_eval [of 199]) (simp_all add: rne_def)
  have r3: "fl64 (2 ^ 200 - 75 * 2 ^ 102) = Finite (2 ^ 200)"
    by (rule fl64_eval [of 199]) (simp_all add: rne_def)
  have "\<exists>prog. progressionLoop64 (Finite 2) (Finite 3) None (Finite (5 * 2 ^ 51)) None []
      (Finite 3) (Finite 0) (Finite 0) (Finite 1) (Finite (2 ^ 200)) = Some prog
    \<and> map cumulativeLoss prog = [Finite 0, Finite 4, Finite 0]"
    using c2 t2 c3 t3 r1 r2 r3
    by (simp add: progressionLoop64.simps Let_def truthyOpt_def js_gt_def emitRound64_fields)
  then obtain prog where prog: "progressionLoop64 (Finite 2) (Finite 3) None (Finite (5 * 2 ^ 51))
      None [] (Finite 3) (Finite 0) (Finite 0) (Finite 1) (Finite (2 ^ 200)) = Some prog"
    and losses: "map cumulativeLoss prog = [Finite 0, Finite 4, Finite 0]"
    by (elim exE conjE)
  have "map_option (map_sum id progression)
      (calculateMartingaleProgression64 pow64 showNumber steepCase) = Some (Inr prog)"
    using calculate64_progression [of steepCase 3 "2 ^ 200" pow64 showNumber] prog
    by (simp add: steepCase_def maxRoundsOf_def betMultiplierOf_def decimal_2)
  then obtain res where "calculateMartingaleProgression64 pow64 showNumber steepCase =
      Some (Inr res)" "progression res = prog"
    by (cases "calculateMartingaleProgression64 pow64 showNumber steepCase")
       (auto simp: map_sum_def split: sum.splits)
  with losses show ?thesis by simp
qed


end
